theory Spec2Isabelle
  imports Main "HOL-Library.Sublist"
begin

section \<open>The Netezza connection handshake (lib/netezza-handshake.js)\<close>

text \<open>
  A Node \<open>Buffer\<close> is a list of bytes; HOL's \<open>char\<close> is an 8-bit value, so a buffer is a
  \<open>string\<close> and the one-byte protocol letters are written as the source writes them
  (\<open>''N''\<close>, \<open>''M''\<close>, \<open>''E''\<close>). The JavaScript strings handed to \<open>Buffer.from(_, 'utf8')\<close>
  (database, user, password, pgOptions, the audit strings) are taken in their UTF-8 encoding;
  the empty encoding is the falsy string.
\<close>

subsection \<open>Constants\<close>

abbreviation (input) CP_VERSION_2 :: int where "CP_VERSION_2 \<equiv> 2"
abbreviation (input) CP_VERSION_3 :: int where "CP_VERSION_3 \<equiv> 3"
abbreviation (input) CP_VERSION_4 :: int where "CP_VERSION_4 \<equiv> 4"
abbreviation (input) CP_VERSION_5 :: int where "CP_VERSION_5 \<equiv> 5"
abbreviation (input) CP_VERSION_6 :: int where "CP_VERSION_6 \<equiv> 6"

abbreviation (input) HSV2_CLIENT_BEGIN :: int where "HSV2_CLIENT_BEGIN \<equiv> 1"
abbreviation (input) HSV2_DB :: int where "HSV2_DB \<equiv> 2"
abbreviation (input) HSV2_USER :: int where "HSV2_USER \<equiv> 3"
abbreviation (input) HSV2_OPTIONS :: int where "HSV2_OPTIONS \<equiv> 4"
abbreviation (input) HSV2_REMOTE_PID :: int where "HSV2_REMOTE_PID \<equiv> 6"
abbreviation (input) HSV2_CLIENT_TYPE :: int where "HSV2_CLIENT_TYPE \<equiv> 8"
abbreviation (input) HSV2_PROTOCOL :: int where "HSV2_PROTOCOL \<equiv> 9"
abbreviation (input) HSV2_SSL_NEGOTIATE :: int where "HSV2_SSL_NEGOTIATE \<equiv> 11"
abbreviation (input) HSV2_SSL_CONNECT :: int where "HSV2_SSL_CONNECT \<equiv> 12"
abbreviation (input) HSV2_APPNAME :: int where "HSV2_APPNAME \<equiv> 13"
abbreviation (input) HSV2_CLIENT_OS :: int where "HSV2_CLIENT_OS \<equiv> 14"
abbreviation (input) HSV2_CLIENT_HOST_NAME :: int where "HSV2_CLIENT_HOST_NAME \<equiv> 15"
abbreviation (input) HSV2_CLIENT_OS_USER :: int where "HSV2_CLIENT_OS_USER \<equiv> 16"
abbreviation (input) HSV2_64BIT_VARLENA_ENABLED :: int where "HSV2_64BIT_VARLENA_ENABLED \<equiv> 17"
abbreviation (input) HSV2_CLIENT_DONE :: int where "HSV2_CLIENT_DONE \<equiv> 1000"

abbreviation (input) PG_PROTOCOL_3 :: int where "PG_PROTOCOL_3 \<equiv> 3"
abbreviation (input) PG_PROTOCOL_4 :: int where "PG_PROTOCOL_4 \<equiv> 4"
abbreviation (input) PG_PROTOCOL_5 :: int where "PG_PROTOCOL_5 \<equiv> 5"

abbreviation (input) AUTH_REQ_OK :: int where "AUTH_REQ_OK \<equiv> 0"
abbreviation (input) AUTH_REQ_PASSWORD :: int where "AUTH_REQ_PASSWORD \<equiv> 3"
abbreviation (input) AUTH_REQ_MD5 :: int where "AUTH_REQ_MD5 \<equiv> 5"
abbreviation (input) AUTH_REQ_SHA256 :: int where "AUTH_REQ_SHA256 \<equiv> 6"

abbreviation (input) IPS_CLIENT :: int where "IPS_CLIENT \<equiv> 1"
abbreviation (input) NPSCLIENT_TYPE_NODE :: int where "NPSCLIENT_TYPE_NODE \<equiv> 15"

abbreviation (input) AUTHENTICATION_REQUEST :: char where "AUTHENTICATION_REQUEST \<equiv> CHR ''R''"
abbreviation (input) ERROR_RESPONSE :: char where "ERROR_RESPONSE \<equiv> CHR ''E''"
abbreviation (input) NOTICE_RESPONSE :: char where "NOTICE_RESPONSE \<equiv> CHR ''N''"
abbreviation (input) BACKEND_KEY_DATA :: char where "BACKEND_KEY_DATA \<equiv> CHR ''K''"
abbreviation (input) READY_FOR_QUERY :: char where "READY_FOR_QUERY \<equiv> CHR ''Z''"

abbreviation (input) NULL_BYTE :: string where "NULL_BYTE \<equiv> [CHR 0x00]"

subsection \<open>Strings\<close>

text \<open>
  A JavaScript string is a sequence of UTF-16 code units. \<open>buf.toString('utf8')\<close> decodes the
  bytes of a buffer as the UTF-8 decoder of the Encoding Standard does, which is what V8
  does: every maximal ill-formed part of the input becomes one U+FFFD, and a byte that
  cannot continue a sequence is read again as the start of the next one. \<open>utf8_decode\<close> takes
  the code point collected so far, the number of continuation bytes still needed and the
  bounds for the next byte; a code point above U+FFFF is stored as a surrogate pair.
\<close>

type_synonym jsString = "nat list"

fun utf8_decode :: "nat \<Rightarrow> nat \<Rightarrow> nat \<Rightarrow> nat \<Rightarrow> nat list \<Rightarrow> nat list" where
  "utf8_decode cp needed lower upper [] = (if needed = 0 then [] else [0xFFFD])"
| "utf8_decode cp needed lower upper (b # bs) =
     (if needed \<noteq> 0 \<and> lower \<le> b \<and> b \<le> upper
      then (if needed = 1
            then (cp * 64 + b mod 64) # utf8_decode 0 0 0x80 0xBF bs
            else utf8_decode (cp * 64 + b mod 64) (needed - 1) 0x80 0xBF bs)
      else (if needed = 0 then [] else [0xFFFD]) @
           (if b \<le> 0x7F then b # utf8_decode 0 0 0x80 0xBF bs
            else if 0xC2 \<le> b \<and> b \<le> 0xDF then utf8_decode (b mod 32) 1 0x80 0xBF bs
            else if 0xE0 \<le> b \<and> b \<le> 0xEF
            then utf8_decode (b mod 16) 2 (if b = 0xE0 then 0xA0 else 0x80)
                   (if b = 0xED then 0x9F else 0xBF) bs
            else if 0xF0 \<le> b \<and> b \<le> 0xF4
            then utf8_decode (b mod 8) 3 (if b = 0xF0 then 0x90 else 0x80)
                   (if b = 0xF4 then 0x8F else 0xBF) bs
            else 0xFFFD # utf8_decode 0 0 0x80 0xBF bs))"

definition utf16_units :: "nat \<Rightarrow> nat list" where
  "utf16_units cp =
     (if cp < 0x10000 then [cp]
      else [0xD800 + (cp - 0x10000) div 0x400, 0xDC00 + (cp - 0x10000) mod 0x400])"

definition toString_utf8 :: "string \<Rightarrow> jsString" where
  "toString_utf8 buf = concat (map utf16_units (utf8_decode 0 0 0x80 0xBF (map of_char buf)))"

subsection \<open>Errors\<close>

text \<open>
  One constructor for each \<open>throw\<close> of the source and each rejection of a read; the names are
  those of the specification's taxonomy where it has one, the thrown message is in the comment.
  An error carries what its message quotes: the string, the character of a received byte, or
  the number. \<open>TlsRefused\<close> and \<open>TlsRequired\<close> are kinds the specification names; no
  statement of the source raises them.
\<close>

datatype error =
    HandshakeNegotiationFailed      \<comment> \<open>'Handshake negotiation failed'\<close>
  | HandshakeInfoFailed             \<comment> \<open>'Failed to send handshake information'\<close>
  | AuthenticationFailed            \<comment> \<open>'Authentication failed'\<close>
  | ConnectionCompletionFailed      \<comment> \<open>'Connection completion failed'\<close>
  | UnsupportedVersion jsString     \<comment> \<open>'Unsupported version suggested: ${versionChar}'\<close>
  | BadAttributeValue               \<comment> \<open>'Bad attribute value error'\<close>
  | BadProtocol                     \<comment> \<open>'Bad protocol error'\<close>
  | DatabaseRejected                \<comment> \<open>'Database authentication error'\<close>
  | TlsRejected                     \<comment> \<open>'Server rejected security negotiation'\<close>
  | UnknownSslResponse char         \<comment> \<open>'Unknown SSL negotiation response: ${responseChar}'\<close>
  | TlsHandshakeFailed              \<comment> \<open>'TLS upgrade failed: ...'\<close>
  | TlsRefused
  | TlsRequired
  | MetadataRejected                \<comment> \<open>'Connection failed during handshake'\<close>
  | UnexpectedMessage char          \<comment> \<open>'Expected authentication request, got: ...'\<close>
  | UnsupportedAuthMethod int       \<comment> \<open>'Unsupported authentication type: ${authType}'\<close>
  | ServerError jsString            \<comment> \<open>'Server error: ${errorMsg}'\<close>
  | Timeout                         \<comment> \<open>'Timeout reading ${count} bytes. ...'\<close>
  | TransportClosed                 \<comment> \<open>'Stream ended before reading required bytes'\<close>
  | RangeError                      \<comment> \<open>ERR_OUT_OF_RANGE of the Buffer integer accessors\<close>

subsection \<open>Integer packing\<close>

text \<open>
  \<open>buf.writeInt16BE(value, 0)\<close> and \<open>buf.writeInt32BE(value, 0)\<close> on a fresh buffer: the value
  in two's complement, most significant byte first; a value outside the signed range throws.
  \<open>char_of\<close> keeps the low eight bits of its argument.
\<close>

definition writeInt16BE :: "int \<Rightarrow> error + string" where
  "writeInt16BE v =
     (if - 32768 \<le> v \<and> v \<le> 32767
      then (let w = v mod 2 ^ 16 in Inr [char_of (w div 2 ^ 8), char_of w])
      else Inl RangeError)"

definition writeInt32BE :: "int \<Rightarrow> error + string" where
  "writeInt32BE v =
     (if - 2147483648 \<le> v \<and> v \<le> 2147483647
      then (let w = v mod 2 ^ 32
            in Inr [char_of (w div 2 ^ 24), char_of (w div 2 ^ 16), char_of (w div 2 ^ 8), char_of w])
      else Inl RangeError)"

text \<open>\<open>buffer.readInt32BE(0)\<close>: throws when the buffer has fewer than four bytes.\<close>

fun readInt32BE :: "string \<Rightarrow> error + int" where
  "readInt32BE (b0 # b1 # b2 # b3 # rest) =
     (let u = of_char b0 * 2 ^ 24 + of_char b1 * 2 ^ 16 + of_char b2 * 2 ^ 8 + of_char b3
      in Inr (if u \<ge> 2 ^ 31 then u - 2 ^ 32 else u))"
| "readInt32BE _ = Inl RangeError"

definition packShort :: "int \<Rightarrow> error + string" where
  "packShort v = writeInt16BE v"

definition packInt :: "int \<Rightarrow> error + string" where
  "packInt v = writeInt32BE v"

definition unpackInt :: "string \<Rightarrow> error + int" where
  "unpackInt buffer = readInt32BE buffer"

subsection \<open>The driver's state\<close>

text \<open>
  The fields of the \<open>NetezzaHandshake\<close> object, and the part of its surroundings it acts on:
  \<^item> \<open>buffer\<close> is \<open>this.buffer\<close>;
  \<^item> \<open>incoming\<close> are the chunks the stream will still deliver as 'data' events, in order,
    and \<open>stream_end\<close> says whether an 'end' event follows the last of them (otherwise the
    30-second timer of a waiting read fires);
  \<^item> \<open>written\<close> are the arguments of \<open>this.stream.write\<close>, in order;
  \<^item> \<open>dataHandler\<close> says whether the permanent 'data' listener is attached;
  \<^item> \<open>secure\<close> says whether \<open>this.stream\<close> is the TLS socket, \<open>tls_error\<close> whether the TLS
    socket reports 'error' instead of 'secureConnect';
  \<^item> \<open>hsVersion\<close>, \<open>protocol1\<close>, \<open>protocol2\<close> are \<open>null\<close> (\<open>None\<close>) until assigned;
  \<^item> \<open>pid\<close> is \<open>process.pid\<close>; the audit strings are those read in the constructor.
  Chunks arrive only while a read waits: between two reads served from the buffer only
  microtasks run, and \<open>stream.write\<close> does not yield. An 'error' event of the stream, which
  would reject a waiting read with the stream's own error, is not part of the model.
\<close>

record hs =
  buffer :: string
  incoming :: "string list"
  stream_end :: bool
  written :: "string list"
  dataHandler :: bool
  secure :: bool
  tls_error :: bool
  hsVersion :: "int option"
  protocol1 :: "int option"
  protocol2 :: "int option"
  clientOS :: string
  clientOSUser :: string
  clientHostName :: string
  appName :: string
  pid :: int

subsection \<open>Fallible steps on the state\<close>

text \<open>
  A method of the driver returns a value or throws, and may change the driver and its stream
  on the way: a function from the state to an \<open>error + value\<close> and the state it leaves.
  \<open>andThen f g\<close> is \<open>const x = await f; g(x)\<close>: a throw of \<open>f\<close> ends the sequence.
  \<open>lift\<close> embeds a computation that does not touch the state, \<open>gets\<close> reads a field,
  \<open>modify\<close> assigns, and \<open>onError h f\<close> is \<open>try { f } catch (error) { h; throw error }\<close>.
\<close>

type_synonym 'a io = "hs \<Rightarrow> (error + 'a) \<times> hs"

definition lift :: "error + 'a \<Rightarrow> 'a io" where
  "lift r st = (r, st)"

definition ret :: "'a \<Rightarrow> 'a io" where
  "ret x = lift (Inr x)"

definition throw :: "error \<Rightarrow> 'a io" where
  "throw e = lift (Inl e)"

definition gets :: "(hs \<Rightarrow> 'a) \<Rightarrow> 'a io" where
  "gets field st = (Inr (field st), st)"

definition modify :: "(hs \<Rightarrow> hs) \<Rightarrow> unit io" where
  "modify h st = (Inr (), h st)"

definition andThen :: "'a io \<Rightarrow> ('a \<Rightarrow> 'b io) \<Rightarrow> 'b io" where
  "andThen f g st = (case f st of (Inl e, st1) \<Rightarrow> (Inl e, st1) | (Inr x, st1) \<Rightarrow> g x st1)"

definition onError :: "(hs \<Rightarrow> hs) \<Rightarrow> 'a io \<Rightarrow> 'a io" where
  "onError h f st = (case f st of (Inl e, st1) \<Rightarrow> (Inl e, h st1) | (Inr x, st1) \<Rightarrow> (Inr x, st1))"

lemma andThen_cong [fundef_cong]:
  "f = f' \<Longrightarrow> st = st' \<Longrightarrow> (\<And>x s. f' st' = (Inr x, s) \<Longrightarrow> g x s = g' x s)
   \<Longrightarrow> andThen f g st = andThen f' g' st'"
  by (auto simp: andThen_def split: prod.splits sum.splits)

text \<open>The outcome of one pass through the body of a \<open>while (true)\<close> loop.\<close>

datatype ('r, 'c) flow = Return 'r | Continue 'c

subsection \<open>The stream\<close>

definition setupDataHandler :: "hs \<Rightarrow> hs" where
  "setupDataHandler st = st\<lparr>dataHandler := True\<rparr>"

definition cleanup :: "hs \<Rightarrow> hs" where
  "cleanup st = st\<lparr>dataHandler := False\<rparr>"

definition stream_write :: "string \<Rightarrow> unit io" where
  "stream_write data = modify (\<lambda>st. st\<lparr>written := written st @ [data]\<rparr>)"

text \<open>
  The idiom every send of the source repeats:
  \<open>this.stream.write(this.packInt(payload.length + 4)); this.stream.write(payload)\<close>.
\<close>

definition writeFrame :: "string \<Rightarrow> unit io" where
  "writeFrame payload =
     andThen (lift (packInt (int (length payload) + 4))) (\<lambda>len.
     andThen (stream_write len) (\<lambda>_.
     stream_write payload))"

subsection \<open>readBytes\<close>

text \<open>
  The wait of \<open>readBytes\<close>: \<open>tempDataHandler\<close> appends each chunk to the buffer and
  \<open>checkAndResolve\<close> stops the wait as soon as the buffer holds \<open>count\<close> bytes.
\<close>

fun awaitData :: "nat \<Rightarrow> string \<Rightarrow> string list \<Rightarrow> string \<times> string list" where
  "awaitData count buf [] = (buf, [])"
| "awaitData count buf (chunk # chunks) =
     (let buf' = buf @ chunk
      in if length buf' \<ge> count then (buf', chunks) else awaitData count buf' chunks)"

definition readBytes :: "nat \<Rightarrow> string io" where
  "readBytes count st =
     (if length (buffer st) \<ge> count
      then (Inr (take count (buffer st)), st\<lparr>buffer := drop count (buffer st)\<rparr>)
      else (case awaitData count (buffer st) (incoming st) of
              (buf, chunks) \<Rightarrow>
                if length buf \<ge> count
                then (Inr (take count buf), st\<lparr>buffer := drop count buf, incoming := chunks\<rparr>)
                else (Inl (if stream_end st then TransportClosed else Timeout),
                      st\<lparr>buffer := buf, incoming := chunks\<rparr>)))"

text \<open>The bytes the driver has not consumed yet: buffered ones, then those still to arrive.\<close>

definition rx :: "hs \<Rightarrow> string" where
  "rx st = buffer st @ concat (incoming st)"

subsection \<open>Reasoning about steps\<close>

lemma lift_eq [simp]: "lift r st = (r', st') \<longleftrightarrow> r = r' \<and> st' = st"
  by (auto simp: lift_def)

lemma ret_eq [simp]: "ret x st = (r, st') \<longleftrightarrow> r = Inr x \<and> st' = st"
  by (auto simp: ret_def)

lemma throw_eq [simp]: "throw e st = (r, st') \<longleftrightarrow> r = Inl e \<and> st' = st"
  by (auto simp: throw_def)

lemma gets_eq [simp]: "gets field st = (r, st') \<longleftrightarrow> r = Inr (field st) \<and> st' = st"
  by (auto simp: gets_def)

lemma modify_eq [simp]: "modify h st = (r, st') \<longleftrightarrow> r = Inr () \<and> st' = h st"
  by (auto simp: modify_def)

lemma andThen_Inr:
  "andThen f g st = (Inr v, st') \<longleftrightarrow> (\<exists>x st1. f st = (Inr x, st1) \<and> g x st1 = (Inr v, st'))"
  by (auto simp: andThen_def split: prod.splits sum.splits)

lemma andThen_Inl:
  "andThen f g st = (Inl e, st') \<longleftrightarrow>
     f st = (Inl e, st') \<or> (\<exists>x st1. f st = (Inr x, st1) \<and> g x st1 = (Inl e, st'))"
  by (auto simp: andThen_def split: prod.splits sum.splits)

lemma andThen_step: "f st = (Inr x, st1) \<Longrightarrow> andThen f g st = g x st1"
  by (simp add: andThen_def)

lemma andThen_fail: "f st = (Inl e, st1) \<Longrightarrow> andThen f g st = (Inl e, st1)"
  by (simp add: andThen_def)

lemma onError_Inr [simp]: "onError h f st = (Inr v, st') \<longleftrightarrow> f st = (Inr v, st')"
  by (auto simp: onError_def split: prod.splits sum.splits)

text \<open>A relation between the state before a step and the state after it, on every run.\<close>

definition always :: "(hs \<Rightarrow> hs \<Rightarrow> bool) \<Rightarrow> 'a io \<Rightarrow> bool" where
  "always R f \<longleftrightarrow> (\<forall>st. R st (snd (f st)))"

definition stepwise :: "(hs \<Rightarrow> hs \<Rightarrow> bool) \<Rightarrow> bool" where
  "stepwise R \<longleftrightarrow> (\<forall>a. R a a) \<and> (\<forall>a b c. R a b \<longrightarrow> R b c \<longrightarrow> R a c)"

lemma alwaysD: "always R f \<Longrightarrow> f st = (r, st') \<Longrightarrow> R st st'"
  by (auto simp: always_def dest: spec [of _ st])

lemma always_lift: "stepwise R \<Longrightarrow> always R (lift r)"
  by (simp add: always_def stepwise_def lift_def)

lemma always_ret: "stepwise R \<Longrightarrow> always R (ret x)"
  by (simp add: ret_def always_lift)

lemma always_throw: "stepwise R \<Longrightarrow> always R (throw e)"
  by (simp add: throw_def always_lift)

lemma always_gets: "stepwise R \<Longrightarrow> always R (gets field)"
  by (simp add: always_def stepwise_def gets_def)

lemma always_modify: "(\<And>st. R st (h st)) \<Longrightarrow> always R (modify h)"
  by (simp add: always_def modify_def)

lemma always_andThen:
  assumes "stepwise R" "always R f" "\<And>x. always R (g x)"
  shows "always R (andThen f g)"
proof -
  have "R st (snd (andThen f g st))" for st
  proof (cases "f st")
    case (Pair r st1)
    then have 1: "R st st1" using assms(2) by (rule alwaysD [rotated])
    show ?thesis
    proof (cases r)
      case (Inl e)
      with Pair 1 show ?thesis by (simp add: andThen_def)
    next
      case (Inr x)
      have "R st1 (snd (g x st1))" using assms(3) by (simp add: always_def)
      with 1 assms(1) have "R st (snd (g x st1))" unfolding stepwise_def by blast
      with Pair Inr show ?thesis by (simp add: andThen_def)
    qed
  qed
  then show ?thesis by (simp add: always_def)
qed

lemma always_onError:
  assumes "stepwise R" "always R f" "\<And>st. R st (h st)"
  shows "always R (onError h f)"
proof -
  have "R st (snd (onError h f st))" for st
  proof (cases "f st")
    case (Pair r st1)
    then have 1: "R st st1" using assms(2) by (rule alwaysD [rotated])
    then have "R st (h st1)" using assms(1,3) unfolding stepwise_def by blast
    with 1 Pair show ?thesis by (cases r) (simp_all add: onError_def)
  qed
  then show ?thesis by (simp add: always_def)
qed

lemma always_if: "(c \<Longrightarrow> always R f) \<Longrightarrow> (\<not> c \<Longrightarrow> always R g) \<Longrightarrow> always R (if c then f else g)"
  by simp

lemma always_case_option:
  "(v = None \<Longrightarrow> always R f) \<Longrightarrow> (\<And>x. v = Some x \<Longrightarrow> always R (g x))
   \<Longrightarrow> always R (case v of None \<Rightarrow> f | Some x \<Rightarrow> g x)"
  by (cases v) simp_all

lemma always_case_flow:
  "(\<And>x. v = Return x \<Longrightarrow> always R (f x)) \<Longrightarrow> (\<And>x. v = Continue x \<Longrightarrow> always R (g x))
   \<Longrightarrow> always R (case v of Return x \<Rightarrow> f x | Continue x \<Rightarrow> g x)"
  by (cases v) simp_all

lemmas always_intros =
  always_andThen always_lift always_ret always_throw always_gets always_if always_case_option
  always_case_flow

subsection \<open>Facts about packing and reading\<close>

lemma signed32:
  fixes v :: int
  assumes "- 2147483648 \<le> v" "v \<le> 2147483647"
  shows "(if v mod 2 ^ 32 \<ge> 2 ^ 31 then v mod 2 ^ 32 - 2 ^ 32 else v mod 2 ^ 32) = v"
proof (cases "v < 0")
  case True
  have "(v + 2 ^ 32) mod 2 ^ 32 = v + 2 ^ 32"
    using assms True by (intro mod_pos_pos_trivial) simp_all
  then have "v mod 2 ^ 32 = v + 2 ^ 32" by simp
  then show ?thesis using True assms by simp
next
  case False
  then have "v mod 2 ^ 32 = v" using assms by simp
  then show ?thesis using assms by simp
qed

lemma bytes4:
  fixes w :: int
  assumes "0 \<le> w" "w < 2 ^ 32"
  shows "(w div 2 ^ 24 mod 256) * 2 ^ 24 + (w div 2 ^ 16 mod 256) * 2 ^ 16
           + (w div 2 ^ 8 mod 256) * 2 ^ 8 + w mod 256 = w"
proof -
  define x where "x = w div 2 ^ 8"
  define y where "y = w div 2 ^ 16"
  define z where "z = w div 2 ^ 24"
  define b where "b = y mod 256"
  define c where "c = x mod 256"
  define d where "d = w mod 256"
  have xy: "y = x div 256"
    unfolding x_def y_def by (simp add: zdiv_zmult2_eq [symmetric])
  have yz: "z = y div 256"
    unfolding z_def y_def by (simp add: zdiv_zmult2_eq [symmetric])
  have "0 \<le> z" "z < 256"
    using assms unfolding z_def by (simp_all add: div_less_iff_less_mult pos_imp_zdiv_nonneg_iff)
  then have top: "z mod 256 = z"
    by simp
  have 1: "w = x * 256 + d"
    unfolding x_def d_def by simp
  have 2: "x = y * 256 + c"
    unfolding xy c_def by simp
  have 3: "y = z * 256 + b"
    unfolding yz b_def by simp
  have "z * 16777216 + b * 65536 + c * 256 + d = w"
    using 1 2 3 by linarith
  then show ?thesis
    unfolding x_def [symmetric] y_def [symmetric] z_def [symmetric] top
      b_def [symmetric] c_def [symmetric] d_def [symmetric]
    by simp
qed

lemma readInt32BE_chars:
  "readInt32BE [char_of (a :: int), char_of (b :: int), char_of (c :: int), char_of (d :: int)] =
     (let u = a mod 256 * 2 ^ 24 + b mod 256 * 2 ^ 16 + c mod 256 * 2 ^ 8 + d mod 256
      in Inr (if u \<ge> 2 ^ 31 then u - 2 ^ 32 else u))"
  by (simp only: readInt32BE.simps of_char_of)

lemma packInt_unpackInt:
  assumes "packInt v = Inr bs"
  shows "length bs = 4 \<and> unpackInt bs = Inr v"
proof -
  from assms have rng: "- 2147483648 \<le> v" "v \<le> 2147483647"
    by (auto simp: packInt_def writeInt32BE_def split: if_splits)
  define w where "w = v mod 2 ^ 32"
  have w: "0 \<le> w" "w < 2 ^ 32" by (simp_all add: w_def)
  from assms rng have bs: "bs = [char_of (w div 2 ^ 24), char_of (w div 2 ^ 16), char_of (w div 2 ^ 8), char_of w]"
    by (simp add: packInt_def writeInt32BE_def w_def Let_def)
  have "readInt32BE bs = Inr (if w \<ge> 2 ^ 31 then w - 2 ^ 32 else w)"
    unfolding bs readInt32BE_chars Let_def bytes4 [OF w] ..
  also have "\<dots> = Inr v"
    unfolding w_def signed32 [OF rng] ..
  finally show ?thesis
    by (simp add: bs unpackInt_def)
qed

lemma packShort_length: "packShort v = Inr bs \<Longrightarrow> length bs = 2"
  by (auto simp: packShort_def writeInt16BE_def Let_def split: if_splits)

lemma awaitData_rx:
  "awaitData count buf chunks = (buf', chunks') \<Longrightarrow>
     buf' @ concat chunks' = buf @ concat chunks \<and> (length buf' < count \<longrightarrow> chunks' = [])"
  by (induction count buf chunks rule: awaitData.induct) (auto simp: Let_def split: if_splits)

text \<open>
  \<open>readBytes\<close> in terms of the unconsumed bytes: it hands out the first \<open>count\<close> of them when
  there are that many, and fails, consuming nothing, when there are not.
\<close>

lemma readBytes_rx:
  assumes "readBytes count st = (r, st')"
  shows "(if count \<le> length (rx st)
          then r = Inr (take count (rx st)) \<and> rx st' = drop count (rx st)
          else r = Inl (if stream_end st then TransportClosed else Timeout) \<and> rx st' = rx st)
         \<and> (\<exists>b i. st' = st\<lparr>buffer := b, incoming := i\<rparr>)"
proof (cases "count \<le> length (buffer st)")
  case True
  with assms have c: "r = Inr (take count (buffer st))"
    "st' = st\<lparr>buffer := drop count (buffer st), incoming := incoming st\<rparr>"
    by (auto simp: readBytes_def)
  from c(2) have "\<exists>b i. st' = st\<lparr>buffer := b, incoming := i\<rparr>"
    by blast
  moreover from True c have "count \<le> length (rx st)" "r = Inr (take count (rx st))"
    "rx st' = drop count (rx st)"
    by (simp_all add: rx_def)
  ultimately show ?thesis
    by simp
next
  case False
  obtain buf chunks where a: "awaitData count (buffer st) (incoming st) = (buf, chunks)"
    by (cases "awaitData count (buffer st) (incoming st)")
  note b = awaitData_rx [OF a]
  show ?thesis
  proof (cases "count \<le> length buf")
    case True
    with False a assms have c: "r = Inr (take count buf)"
      "st' = st\<lparr>buffer := drop count buf, incoming := chunks\<rparr>"
      by (auto simp: readBytes_def)
    from c(2) have "\<exists>b i. st' = st\<lparr>buffer := b, incoming := i\<rparr>"
      by blast
    moreover have e: "rx st = buf @ concat chunks"
      using b by (simp add: rx_def)
    moreover from True c e have "count \<le> length (rx st)" "r = Inr (take count (rx st))"
      "rx st' = drop count (rx st)"
      by (simp_all add: rx_def)
    ultimately show ?thesis
      by simp
  next
    case c: False
    with False a assms have d: "r = Inl (if stream_end st then TransportClosed else Timeout)"
      "st' = st\<lparr>buffer := buf, incoming := chunks\<rparr>"
      by (auto simp: readBytes_def)
    from d(2) have "\<exists>b i. st' = st\<lparr>buffer := b, incoming := i\<rparr>"
      by blast
    moreover from b c have e: "chunks = []"
      by simp
    moreover from b e have f: "rx st = buf"
      by (simp add: rx_def)
    moreover from c d e f have "\<not> count \<le> length (rx st)" "rx st' = rx st"
      by (simp_all add: rx_def)
    ultimately show ?thesis using d(1)
      by simp
  qed
qed

lemma readBytes_Inr:
  "readBytes count st = (Inr bytes, st') \<Longrightarrow> length bytes = count \<and> rx st = bytes @ rx st'"
  by (drule readBytes_rx) (auto split: if_splits)

lemma readBytes_fields:
  "readBytes count st = (r, st') \<Longrightarrow> \<exists>b i. st' = st\<lparr>buffer := b, incoming := i\<rparr>"
  by (drule readBytes_rx) simp

lemma readBytes_enough:
  assumes "count \<le> length (rx st)"
  shows "\<exists>st'. readBytes count st = (Inr (take count (rx st)), st') \<and> rx st' = drop count (rx st)
           \<and> (\<exists>b i. st' = st\<lparr>buffer := b, incoming := i\<rparr>)"
proof -
  obtain r st' where a: "readBytes count st = (r, st')"
    by (cases "readBytes count st")
  from readBytes_rx [OF a] assms a show ?thesis
    by auto
qed

lemma readBytes_always:
  assumes "\<And>st b i. R st (st\<lparr>buffer := b, incoming := i\<rparr>)"
  shows "always R (readBytes count)"
  unfolding always_def
proof
  fix st
  obtain r st' where b: "readBytes count st = (r, st')"
    by (cases "readBytes count st")
  from readBytes_fields [OF b] assms have "R st st'"
    by auto
  with b show "R st (snd (readBytes count st))"
    by simp
qed

lemma andThen_InrE:
  assumes "andThen f g st = (Inr v, st')"
  obtains x st1 where "f st = (Inr x, st1)" "g x st1 = (Inr v, st')"
  using assms by (auto simp: andThen_Inr)

subsection \<open>Phase 1: negotiateHandshake\<close>

text \<open>
  \<open>negotiateStep\<close> is the body of the \<open>while (true)\<close> loop: it returns, throws, or leaves
  the value \<open>version\<close> has at the start of the next iteration. The loop is entered with
  \<open>version = CP_VERSION_6\<close>. A one-byte buffer whose \<open>toString()\<close> is 'N', 'M', 'E' or a digit
  holds that ASCII byte.
\<close>

definition negotiateStep :: "int \<Rightarrow> (bool, int) flow io" where
  "negotiateStep version =
     andThen (lift (packShort HSV2_CLIENT_BEGIN)) (\<lambda>opcode.
     andThen (lift (packShort version)) (\<lambda>ver.
     andThen (writeFrame (opcode @ ver)) (\<lambda>_.
     andThen (readBytes 1) (\<lambda>response.
       if response = ''N''
       then andThen (modify (\<lambda>st. st\<lparr>hsVersion := Some version, protocol2 := Some 0\<rparr>)) (\<lambda>_.
            ret (Return True))
       else if response = ''M''
       then andThen (readBytes 1) (\<lambda>versionChar.
              if versionChar = ''2'' then ret (Continue CP_VERSION_2)
              else if versionChar = ''3'' then ret (Continue CP_VERSION_3)
              else if versionChar = ''4'' then ret (Continue CP_VERSION_4)
              else if versionChar = ''5'' then ret (Continue CP_VERSION_5)
              else throw (UnsupportedVersion (toString_utf8 versionChar)))
       else if response = ''E''
       then throw BadAttributeValue
       else throw BadProtocol))))"

lemma writeFrame_rx:
  "writeFrame payload st = (r, st') \<Longrightarrow> rx st' = rx st"
  by (cases r) (auto simp: writeFrame_def stream_write_def andThen_Inr andThen_Inl rx_def)

lemma negotiateStep_Continue:
  assumes "negotiateStep version st = (Inr (Continue version'), st')"
  shows "length (rx st') < length (rx st)"
proof -
  from assms obtain payload u st1 response st2 versionChar where
    w: "writeFrame payload st = (Inr u, st1)" and
    r1: "readBytes 1 st1 = (Inr response, st2)" and
    r2: "readBytes 1 st2 = (Inr versionChar, st')"
    unfolding negotiateStep_def
    apply (elim andThen_InrE)
    apply (simp split: if_splits)
     apply (elim andThen_InrE, simp)
    apply (elim andThen_InrE)
    apply (simp split: if_splits)
    done
  have "rx st1 = rx st"
    using w by (rule writeFrame_rx)
  moreover have "length (rx st2) < length (rx st1)"
    using readBytes_Inr [OF r1] by auto
  moreover have "length (rx st') \<le> length (rx st2)"
    using readBytes_Inr [OF r2] by auto
  ultimately show ?thesis
    by simp
qed

function negotiateHandshake_loop :: "int \<Rightarrow> bool io" where
  "negotiateHandshake_loop version st =
     andThen (negotiateStep version) (\<lambda>outcome st1.
       case outcome of
         Return result \<Rightarrow> ret result st1
       | Continue version' \<Rightarrow> negotiateHandshake_loop version' st1) st"
  by pat_completeness auto
termination
  apply (relation "measure (\<lambda>(version, st). length (rx st))")
   apply simp
  apply (auto dest: negotiateStep_Continue)
  done

declare negotiateHandshake_loop.simps [simp del]

definition negotiateHandshake :: "bool io" where
  "negotiateHandshake = negotiateHandshake_loop CP_VERSION_6"

subsection \<open>Phase 2: sendHandshakeInfo\<close>

definition sendDatabase :: "string \<Rightarrow> bool io" where
  "sendDatabase database =
     (if database = [] then ret True
      else
        andThen (lift (packShort HSV2_DB)) (\<lambda>opcode.
        andThen (writeFrame (opcode @ database @ NULL_BYTE)) (\<lambda>_.
        andThen (readBytes 1) (\<lambda>response.
          if response = ''N'' then ret True
          else if response ! 0 = ERROR_RESPONSE then throw DatabaseRejected
          else ret False))))"

definition setNextDataProtocol :: "bool io" where
  "setNextDataProtocol st =
     (if protocol2 st = Some 0
      then (Inr True, st\<lparr>protocol2 := Some PG_PROTOCOL_5, protocol1 := Some PG_PROTOCOL_3\<rparr>)
      else if protocol2 st = Some 5
      then (Inr True, st\<lparr>protocol2 := Some PG_PROTOCOL_4, protocol1 := Some PG_PROTOCOL_3\<rparr>)
      else if protocol2 st = Some 4
      then (Inr True, st\<lparr>protocol2 := Some PG_PROTOCOL_3, protocol1 := Some PG_PROTOCOL_3\<rparr>)
      else (Inr False, st))"

text \<open>
  \<open>upgradeToTLS\<close>: the permanent listener is removed, the TLS client wraps the socket, and on
  'secureConnect' the TLS socket becomes \<open>this.stream\<close> with the listener attached again;
  \<open>this.buffer\<close> is not touched. The bytes that arrive afterwards are those the TLS socket
  delivers.
\<close>

definition upgradeToTLS :: "unit io" where
  "upgradeToTLS =
     andThen (modify cleanup) (\<lambda>_.
     andThen (gets tls_error) (\<lambda>failed.
       if failed then throw TlsHandshakeFailed
       else andThen (modify (\<lambda>st. st\<lparr>secure := True\<rparr>)) (\<lambda>_.
            modify setupDataHandler)))"

definition secureSession :: "int \<Rightarrow> bool io" where
  "secureSession securityLevel =
     andThen (lift (packShort HSV2_SSL_NEGOTIATE)) (\<lambda>opcode.
     andThen (lift (packInt securityLevel)) (\<lambda>level.
     andThen (writeFrame (opcode @ level)) (\<lambda>_.
     andThen (readBytes 1) (\<lambda>response.
       let responseChar = response ! 0 in
       if responseChar = CHR ''N'' then ret True
       else if responseChar = CHR ''S''
       then andThen (lift (packShort HSV2_SSL_CONNECT)) (\<lambda>connectOpcode.
            andThen (lift (packInt securityLevel)) (\<lambda>connectLevel.
            andThen (writeFrame (connectOpcode @ connectLevel)) (\<lambda>_.
            andThen upgradeToTLS (\<lambda>_.
            ret True))))
       else if responseChar = CHR ''E'' then throw TlsRejected
       else throw (UnknownSslResponse responseChar)))))"

text \<open>
  A step of the metadata stream is \<open>{ opcode, data }\<close> with \<open>data\<close> a buffer or \<open>null\<close>.
  \<open>sendSteps\<close> is the \<open>for (const step of steps)\<close> loop that \<open>sendHandshakeVersion2\<close> and
  \<open>sendHandshakeVersion4\<close> both contain, word for word.
\<close>

type_synonym step = "int \<times> string option"

fun sendSteps :: "step list \<Rightarrow> bool io" where
  "sendSteps [] = ret True"
| "sendSteps ((opcode, data) # steps) =
     (if data = None \<and> opcode \<noteq> HSV2_CLIENT_DONE then sendSteps steps
      else
        andThen (lift (packShort opcode)) (\<lambda>op.
        andThen (writeFrame (case data of Some d \<Rightarrow> op @ d | None \<Rightarrow> op)) (\<lambda>_.
          if opcode = HSV2_CLIENT_DONE then ret True
          else
            andThen (readBytes 1) (\<lambda>response.
              if response \<noteq> ''N''
              then (if response ! 0 = ERROR_RESPONSE then throw MetadataRejected
                    else ret False)
              else sendSteps steps))))"

text \<open>
  The \<open>steps\<close> arrays. \<open>packShort(this.protocol1)\<close> writes 0 for \<open>null\<close> (the accessor
  converts its argument with unary plus).
\<close>

definition null_as_zero :: "int option \<Rightarrow> int" where
  "null_as_zero v = (case v of None \<Rightarrow> 0 | Some n \<Rightarrow> n)"

definition protocolData :: "string io" where
  "protocolData =
     andThen (gets protocol1) (\<lambda>p1.
     andThen (lift (packShort (null_as_zero p1))) (\<lambda>major.
     andThen (gets protocol2) (\<lambda>p2.
     andThen (lift (packShort (null_as_zero p2))) (\<lambda>minor.
     ret (major @ minor)))))"

definition optionsData :: "string \<Rightarrow> string option" where
  "optionsData pgOptions = (if pgOptions \<noteq> [] then Some (pgOptions @ NULL_BYTE) else None)"

definition tailSteps :: "step list io" where
  "tailSteps =
     andThen (gets hsVersion) (\<lambda>v.
     andThen (if v = Some CP_VERSION_5 \<or> v = Some CP_VERSION_6
              then andThen (lift (packShort IPS_CLIENT)) (\<lambda>enabled.
                   ret [(HSV2_64BIT_VARLENA_ENABLED, Some enabled)])
              else ret []) (\<lambda>varlena.
     ret (varlena @ [(HSV2_CLIENT_DONE, None)])))"

definition stepsVersion2 :: "string \<Rightarrow> string \<Rightarrow> step list io" where
  "stepsVersion2 user pgOptions =
     andThen protocolData (\<lambda>protocol.
     andThen (gets pid) (\<lambda>p.
     andThen (lift (packInt p)) (\<lambda>remotePid.
     andThen (lift (packShort NPSCLIENT_TYPE_NODE)) (\<lambda>clientType.
     andThen tailSteps (\<lambda>tail.
     ret ([(HSV2_USER, Some (user @ NULL_BYTE)),
           (HSV2_PROTOCOL, Some protocol),
           (HSV2_REMOTE_PID, Some remotePid),
           (HSV2_OPTIONS, optionsData pgOptions),
           (HSV2_CLIENT_TYPE, Some clientType)] @ tail))))))"

definition stepsVersion4 :: "string \<Rightarrow> string \<Rightarrow> step list io" where
  "stepsVersion4 user pgOptions =
     andThen (gets appName) (\<lambda>app.
     andThen (gets clientOS) (\<lambda>os.
     andThen (gets clientHostName) (\<lambda>host.
     andThen (gets clientOSUser) (\<lambda>osUser.
     andThen protocolData (\<lambda>protocol.
     andThen (gets pid) (\<lambda>p.
     andThen (lift (packInt p)) (\<lambda>remotePid.
     andThen (lift (packShort NPSCLIENT_TYPE_NODE)) (\<lambda>clientType.
     andThen tailSteps (\<lambda>tail.
     ret ([(HSV2_USER, Some (user @ NULL_BYTE)),
           (HSV2_APPNAME, Some (app @ NULL_BYTE)),
           (HSV2_CLIENT_OS, Some (os @ NULL_BYTE)),
           (HSV2_CLIENT_HOST_NAME, Some (host @ NULL_BYTE)),
           (HSV2_CLIENT_OS_USER, Some (osUser @ NULL_BYTE)),
           (HSV2_PROTOCOL, Some protocol),
           (HSV2_REMOTE_PID, Some remotePid),
           (HSV2_OPTIONS, optionsData pgOptions),
           (HSV2_CLIENT_TYPE, Some clientType)] @ tail))))))))))"

definition sendHandshakeVersion2 :: "string \<Rightarrow> string \<Rightarrow> bool io" where
  "sendHandshakeVersion2 user pgOptions = andThen (stepsVersion2 user pgOptions) sendSteps"

definition sendHandshakeVersion4 :: "string \<Rightarrow> string \<Rightarrow> bool io" where
  "sendHandshakeVersion4 user pgOptions = andThen (stepsVersion4 user pgOptions) sendSteps"

text \<open>
  The last statement of \<open>sendHandshakeInfo\<close> (``send handshake based on version''): the
  choice between the two metadata sequences.
\<close>

definition sendHandshakeByVersion :: "string \<Rightarrow> string \<Rightarrow> bool io" where
  "sendHandshakeByVersion user pgOptions =
     andThen (gets hsVersion) (\<lambda>v.
       if v = Some CP_VERSION_6 \<or> v = Some CP_VERSION_4
       then sendHandshakeVersion4 user pgOptions
       else if v = Some CP_VERSION_5 \<or> v = Some CP_VERSION_3 \<or> v = Some CP_VERSION_2
       then sendHandshakeVersion2 user pgOptions
       else ret True)"

definition sendHandshakeInfo :: "string \<Rightarrow> int \<Rightarrow> string \<Rightarrow> string \<Rightarrow> bool io" where
  "sendHandshakeInfo database securityLevel user pgOptions =
     andThen (sendDatabase database) (\<lambda>sent.
       if \<not> sent then ret False
       else
         andThen setNextDataProtocol (\<lambda>advanced.
           if \<not> advanced then ret False
           else
             andThen (secureSession securityLevel) (\<lambda>secured.
               if \<not> secured then ret False
               else sendHandshakeByVersion user pgOptions)))"

subsection \<open>Phase 3: authenticate\<close>

text \<open>
  \<open>hash.digest('base64')\<close> is the standard base64 encoding with \<open>=\<close> padding of the digest;
  \<open>.replace(/=+$/, '')\<close> removes the run of \<open>=\<close> at the end. The digest functions of Node's
  \<open>crypto\<close> module are parameters of the model.
\<close>

definition base64_alphabet :: string where
  "base64_alphabet = ''ABCDEFGHIJKLMNOPQRSTUVWXYZabcdefghijklmnopqrstuvwxyz0123456789+/''"

definition base64_digit :: "nat \<Rightarrow> char" where
  "base64_digit i = base64_alphabet ! i"

fun base64 :: "string \<Rightarrow> string" where
  "base64 [] = []"
| "base64 [a] =
     (let x = of_char a :: nat
      in [base64_digit (x div 4), base64_digit (x mod 4 * 16), CHR ''='', CHR ''=''])"
| "base64 [a, b] =
     (let x = of_char a :: nat; y = of_char b :: nat
      in [base64_digit (x div 4), base64_digit (x mod 4 * 16 + y div 16),
          base64_digit (y mod 16 * 4), CHR ''=''])"
| "base64 (a # b # c # rest) =
     (let x = of_char a :: nat; y = of_char b :: nat; z = of_char c :: nat
      in [base64_digit (x div 4), base64_digit (x mod 4 * 16 + y div 16),
          base64_digit (y mod 16 * 4 + z div 64), base64_digit (z mod 64)] @ base64 rest)"

definition stripPadding :: "string \<Rightarrow> string" where
  "stripPadding s = rev (dropWhile (\<lambda>c. c = CHR ''='') (rev s))"

definition authenticate :: "(string \<Rightarrow> string) \<Rightarrow> (string \<Rightarrow> string) \<Rightarrow> string \<Rightarrow> bool io" where
  "authenticate md5 sha256 password =
     andThen (readBytes 1) (\<lambda>first.
     andThen (if first = ''N'' then readBytes 1 else ret first) (\<lambda>response.
       if response ! 0 \<noteq> AUTHENTICATION_REQUEST
       then throw (UnexpectedMessage (response ! 0))
       else
         andThen (readBytes 4) (\<lambda>code.
         andThen (lift (unpackInt code)) (\<lambda>authType.
           if authType = AUTH_REQ_OK then ret True
           else if authType = AUTH_REQ_PASSWORD
           then andThen (writeFrame (password @ NULL_BYTE)) (\<lambda>_.
                ret True)
           else if authType = AUTH_REQ_MD5
           then andThen (readBytes 2) (\<lambda>salt.
                let md5pwd = stripPadding (base64 (md5 (salt @ password))) in
                andThen (writeFrame (md5pwd @ NULL_BYTE)) (\<lambda>_.
                ret True))
           else if authType = AUTH_REQ_SHA256
           then andThen (readBytes 2) (\<lambda>salt.
                let sha256pwd = stripPadding (base64 (sha256 (salt @ password))) in
                andThen (writeFrame (sha256pwd @ NULL_BYTE)) (\<lambda>_.
                ret True))
           else throw (UnsupportedAuthMethod authType)))))"

subsection \<open>Phase 4: waitConnectionComplete\<close>

text \<open>
  \<open>drainMessage\<close> is the body of the \<open>while (true)\<close> loop; \<open>Continue ()\<close> is a \<open>break\<close> out
  of the \<open>switch\<close>, that is, the next iteration. \<open>replace(/\0/g, '')\<close> removes every code
  unit 0 from the decoded text.
\<close>

definition drainMessage :: "(bool, unit) flow io" where
  "drainMessage =
     andThen (readBytes 1) (\<lambda>response.
       let msgType = response ! 0 in
       andThen (if msgType \<noteq> AUTHENTICATION_REQUEST \<and> msgType \<noteq> NOTICE_RESPONSE
                   \<and> msgType \<noteq> ERROR_RESPONSE
                then readBytes 8 else ret []) (\<lambda>_.
         if msgType = AUTHENTICATION_REQUEST
         then andThen (readBytes 4) (\<lambda>code.
              andThen (lift (unpackInt code)) (\<lambda>authType.
              ret (Continue ())))
         else if msgType = BACKEND_KEY_DATA
         then andThen (readBytes 4) (\<lambda>pidBytes.
              andThen (lift (unpackInt pidBytes)) (\<lambda>backendPid.
              andThen (readBytes 4) (\<lambda>keyBytes.
              andThen (lift (unpackInt keyBytes)) (\<lambda>key.
              ret (Continue ())))))
         else if msgType = READY_FOR_QUERY
         then ret (Return True)
         else if msgType = NOTICE_RESPONSE
         then andThen (readBytes 4) (\<lambda>_.
              ret (Continue ()))
         else if msgType = ERROR_RESPONSE
         then andThen (readBytes 2000) (\<lambda>errorBuf.
              let errorMsg = filter (\<lambda>unit. unit \<noteq> 0) (toString_utf8 errorBuf) in
              throw (ServerError errorMsg))
         else ret (Continue ())))"

lemma always_andThen_lift:
  assumes "stepwise R" "\<And>x. r = Inr x \<Longrightarrow> always R (g x)"
  shows "always R (andThen (lift r) g)"
proof (cases r)
  case (Inl e)
  then have "andThen (lift r) g = throw e"
    by (auto simp: andThen_def lift_def throw_def)
  with assms(1) show ?thesis
    by (simp add: always_throw)
next
  case (Inr x)
  then have "andThen (lift r) g = g x"
    by (auto simp: andThen_def lift_def)
  with assms(2) [OF Inr] show ?thesis
    by simp
qed

text \<open>
  What a relation needs to hold along every run: it is reflexive and transitive, and the
  reads, the sends of frames with a payload of at least \<open>n\<close> bytes and the TLS upgrade
  respect it.
\<close>

definition io_rel :: "nat \<Rightarrow> (hs \<Rightarrow> hs \<Rightarrow> bool) \<Rightarrow> bool" where
  "io_rel n R \<longleftrightarrow>
     stepwise R \<and> (\<forall>count. always R (readBytes count))
     \<and> (\<forall>payload. n \<le> length payload \<longrightarrow> always R (writeFrame payload))
     \<and> always R upgradeToTLS"

lemma io_rel_stepwise: "io_rel n R \<Longrightarrow> stepwise R"
  by (simp add: io_rel_def)

lemma io_rel_readBytes: "io_rel n R \<Longrightarrow> always R (readBytes count)"
  by (simp add: io_rel_def)

lemma io_rel_writeFrame: "io_rel n R \<Longrightarrow> n \<le> length payload \<Longrightarrow> always R (writeFrame payload)"
  by (simp add: io_rel_def)

lemma io_rel_upgradeToTLS: "io_rel n R \<Longrightarrow> always R upgradeToTLS"
  by (simp add: io_rel_def)

lemma io_rel_mono: "io_rel n R \<Longrightarrow> n \<le> m \<Longrightarrow> io_rel m R"
  by (auto simp: io_rel_def)

lemma always_negotiateStep:
  assumes "io_rel 2 R" "\<And>st v p. R st (st\<lparr>hsVersion := v, protocol2 := p\<rparr>)"
  shows "always R (negotiateStep version)"
  unfolding negotiateStep_def
  by (intro always_andThen_lift always_intros always_modify io_rel_stepwise [OF assms(1)]
      io_rel_readBytes [OF assms(1)] io_rel_writeFrame [OF assms(1)] assms(2))
    (simp add: packShort_length)

lemma always_negotiateHandshake_loop:
  assumes "stepwise R" "\<And>version. always R (negotiateStep version)"
  shows "always R (negotiateHandshake_loop version)"
proof -
  have "R st (snd (negotiateHandshake_loop version st))" for st
  proof (induction version st rule: negotiateHandshake_loop.induct)
    case (1 version st)
    obtain r st1 where a: "negotiateStep version st = (r, st1)"
      by (cases "negotiateStep version st")
    then have b: "R st st1"
      using assms(2) by (rule alwaysD [rotated])
    show ?case
    proof (cases r)
      case (Inl e)
      with a b show ?thesis
        by (subst negotiateHandshake_loop.simps) (simp add: andThen_def)
    next
      case (Inr outcome)
      show ?thesis
      proof (cases outcome)
        case (Return result)
        with a b Inr show ?thesis
          by (subst negotiateHandshake_loop.simps) (simp add: andThen_def ret_def lift_def)
      next
        case (Continue version')
        from "1.IH" [of outcome st1 version'] a Inr Continue
        have "R st1 (snd (negotiateHandshake_loop version' st1))"
          by simp
        with b assms(1) have "R st (snd (negotiateHandshake_loop version' st1))"
          unfolding stepwise_def by blast
        with a Inr Continue show ?thesis
          by (subst negotiateHandshake_loop.simps) (simp add: andThen_def)
      qed
    qed
  qed
  then show ?thesis
    by (simp add: always_def)
qed

lemma always_negotiateHandshake:
  assumes "io_rel 2 R" "\<And>st v p. R st (st\<lparr>hsVersion := v, protocol2 := p\<rparr>)"
  shows "always R negotiateHandshake"
  unfolding negotiateHandshake_def
  by (intro always_negotiateHandshake_loop always_negotiateStep assms io_rel_stepwise [OF assms(1)])

lemma always_sendDatabase:
  assumes "io_rel 2 R"
  shows "always R (sendDatabase database)"
  unfolding sendDatabase_def
  by (intro always_andThen_lift always_intros io_rel_stepwise [OF assms]
      io_rel_readBytes [OF assms] io_rel_writeFrame [OF assms])
    (simp add: packShort_length)

lemma always_secureSession:
  assumes "io_rel 2 R"
  shows "always R (secureSession securityLevel)"
  unfolding secureSession_def Let_def
  by (intro always_andThen_lift always_intros io_rel_stepwise [OF assms]
      io_rel_readBytes [OF assms] io_rel_writeFrame [OF assms] io_rel_upgradeToTLS [OF assms])
    (simp_all add: packShort_length)

lemma always_sendSteps:
  assumes "io_rel 2 R"
  shows "always R (sendSteps steps)"
proof (induction steps)
  case Nil
  show ?case
    by (simp add: always_ret io_rel_stepwise [OF assms])
next
  case (Cons step steps)
  obtain opcode data where s: "step = (opcode, data)"
    by (cases step)
  show ?case
    unfolding s sendSteps.simps
    by (intro always_andThen_lift always_intros io_rel_stepwise [OF assms]
        io_rel_readBytes [OF assms] io_rel_writeFrame [OF assms] Cons.IH)
      (auto simp: packShort_length split: option.splits)
qed

lemma always_stepsVersion:
  assumes "stepwise R"
  shows "always R (stepsVersion2 user pgOptions)" "always R (stepsVersion4 user pgOptions)"
  unfolding stepsVersion2_def stepsVersion4_def protocolData_def tailSteps_def
  by (intro always_intros assms)+

lemma always_sendHandshakeInfo:
  assumes "io_rel 2 R" "always R setNextDataProtocol"
  shows "always R (sendHandshakeInfo database securityLevel user pgOptions)"
  unfolding sendHandshakeInfo_def sendHandshakeByVersion_def sendHandshakeVersion2_def
    sendHandshakeVersion4_def
  by (intro always_intros io_rel_stepwise [OF assms(1)] always_sendDatabase always_secureSession
      always_sendSteps always_stepsVersion assms)

text \<open>A message that is drained without a throw starts with a byte that is consumed.\<close>

lemma drainMessage_Inr:
  assumes "drainMessage st = (Inr outcome, st')"
  shows "\<exists>t rest. rx st = t # rest \<and> suffix (rx st') rest
           \<and> (outcome = Return True \<longrightarrow> t = READY_FOR_QUERY \<and> rx st' = drop 8 rest \<and> 8 \<le> length rest)"
  using assms unfolding drainMessage_def Let_def
  apply (elim andThen_InrE)
  apply (drule readBytes_Inr)
  apply (simp split: if_splits)
  apply (auto elim!: andThen_InrE dest!: readBytes_Inr simp: length_Suc_conv suffix_def)
  done

lemma drainMessage_shorter:
  "drainMessage st = (Inr outcome, st') \<Longrightarrow> length (rx st') < length (rx st)"
  by (drule drainMessage_Inr) (auto dest: suffix_length_le)

function waitConnectionComplete :: "bool io" where
  "waitConnectionComplete st =
     andThen drainMessage (\<lambda>outcome st1.
       case outcome of
         Return result \<Rightarrow> ret result st1
       | Continue _ \<Rightarrow> waitConnectionComplete st1) st"
  by pat_completeness auto
termination
  apply (relation "measure (\<lambda>st. length (rx st))")
   apply simp
  apply (auto dest: drainMessage_shorter)
  done

declare waitConnectionComplete.simps [simp del]

subsection \<open>startup\<close>

text \<open>
  The object \<open>startup\<close> resolves with; its \<open>stream\<close> member is the stream of the state. A
  phase that returns \<open>false\<close> makes \<open>startup\<close> throw, and every throw runs \<open>cleanup\<close>.
\<close>

record handshakeResult =
  success :: bool
  remainingBuffer :: string
  needsInitialization :: bool

definition takeRemaining :: "handshakeResult io" where
  "takeRemaining =
     andThen (gets buffer) (\<lambda>remaining.
     andThen (modify (\<lambda>st. st\<lparr>buffer := []\<rparr>)) (\<lambda>_.
     ret \<lparr>success = True, remainingBuffer = remaining, needsInitialization = True\<rparr>))"

definition startup ::
  "(string \<Rightarrow> string) \<Rightarrow> (string \<Rightarrow> string) \<Rightarrow> string \<Rightarrow> int \<Rightarrow> string \<Rightarrow> string \<Rightarrow> string
     \<Rightarrow> handshakeResult io" where
  "startup md5 sha256 database securityLevel user password pgOptions =
     onError cleanup
       (andThen negotiateHandshake (\<lambda>negotiated.
          if \<not> negotiated then throw HandshakeNegotiationFailed
          else
            andThen (sendHandshakeInfo database securityLevel user pgOptions) (\<lambda>sent.
              if \<not> sent then throw HandshakeInfoFailed
              else
                andThen (authenticate md5 sha256 password) (\<lambda>authenticated.
                  if \<not> authenticated then throw AuthenticationFailed
                  else
                    andThen waitConnectionComplete (\<lambda>complete.
                      if \<not> complete then throw ConnectionCompletionFailed
                      else takeRemaining)))))"

text \<open>
  A driver as the constructor leaves it, on a stream that will deliver the given chunks, and
  a digest function for the examples in which no digest is asked for.
\<close>

definition no_digest :: "string \<Rightarrow> string" where
  "no_digest input = []"

definition new_driver :: "string list \<Rightarrow> hs" where
  "new_driver chunks =
     \<lparr>buffer = [], incoming = chunks, stream_end = False, written = [], dataHandler = True,
      secure = False, tls_error = False, hsVersion = None, protocol1 = None, protocol2 = None,
      clientOS = ''linux'', clientOSUser = ''nz'', clientHostName = ''host'', appName = ''node'',
      pid = 4242\<rparr>"

subsection \<open>Relations that hold along the later phases\<close>

lemma always_authenticate:
  assumes "io_rel 0 R"
  shows "always R (authenticate md5 sha256 password)"
  unfolding authenticate_def Let_def
  by (intro always_andThen_lift always_intros io_rel_stepwise [OF assms]
      io_rel_readBytes [OF assms] io_rel_writeFrame [OF assms]) simp_all

lemma always_drainMessage:
  assumes "io_rel n R"
  shows "always R drainMessage"
  unfolding drainMessage_def Let_def
  by (intro always_andThen_lift always_intros io_rel_stepwise [OF assms]
      io_rel_readBytes [OF assms])

lemma always_waitConnectionComplete:
  assumes "io_rel n R"
  shows "always R waitConnectionComplete"
proof -
  note sw = io_rel_stepwise [OF assms]
  have "R st (snd (waitConnectionComplete st))" for st
  proof (induction st rule: waitConnectionComplete.induct)
    case (1 st)
    obtain r st1 where a: "drainMessage st = (r, st1)"
      by (cases "drainMessage st")
    then have b: "R st st1"
      using always_drainMessage [OF assms] by (rule alwaysD [rotated])
    show ?case
    proof (cases r)
      case (Inl e)
      with a b show ?thesis
        by (subst waitConnectionComplete.simps) (simp add: andThen_def)
    next
      case (Inr outcome)
      show ?thesis
      proof (cases outcome)
        case (Return result)
        with a b Inr show ?thesis
          by (subst waitConnectionComplete.simps) (simp add: andThen_def ret_def lift_def)
      next
        case (Continue u)
        from "1.IH" [of outcome st1 u] a Inr Continue
        have "R st1 (snd (waitConnectionComplete st1))"
          by simp
        with b sw have "R st (snd (waitConnectionComplete st1))"
          unfolding stepwise_def by blast
        with a Inr Continue show ?thesis
          by (subst waitConnectionComplete.simps) (simp add: andThen_def)
      qed
    qed
  qed
  then show ?thesis
    by (simp add: always_def)
qed

section \<open>What is observed of a run\<close>

text \<open>
  A frame on the wire is a pair of consecutive writes, the length and the payload.
  \<open>frames_of\<close> groups a list of writes into frames; \<open>sent_by st st'\<close> are the writes made
  between two states.
\<close>

fun frames_of :: "string list \<Rightarrow> string list" where
  "frames_of (len # payload # writes) = (len @ payload) # frames_of writes"
| "frames_of _ = []"

definition sent_by :: "hs \<Rightarrow> hs \<Rightarrow> string list" where
  "sent_by st st' = drop (length (written st)) (written st')"

text \<open>\<open>buffer.readInt16BE(0)\<close>, which a receiver applies to the opcode field.\<close>

fun readInt16BE :: "string \<Rightarrow> error + int" where
  "readInt16BE (b0 # b1 # rest) =
     (let u = of_char b0 * 2 ^ 8 + of_char b1
      in Inr (if u \<ge> 2 ^ 15 then u - 2 ^ 16 else u))"
| "readInt16BE _ = Inl RangeError"

definition frame_length :: "string \<Rightarrow> error + int" where
  "frame_length frame = readInt32BE (take 4 frame)"

definition frame_opcode :: "string \<Rightarrow> error + int" where
  "frame_opcode frame = readInt16BE (drop 4 frame)"

text \<open>
  The layout \<open>len(int32 BE) \<parallel> opcode(int16 BE) \<parallel> body\<close>: at least six bytes, the first four
  of which hold the number of bytes of the whole frame.
\<close>

definition opcoded_frame :: "string \<Rightarrow> bool" where
  "opcoded_frame frame \<longleftrightarrow> 6 \<le> length frame \<and> frame_length frame = Inr (int (length frame))"

section \<open>Relations between the states of a run\<close>

subsection \<open>Bytes are consumed in order\<close>

definition consumes :: "hs \<Rightarrow> hs \<Rightarrow> bool" where
  "consumes st st' \<longleftrightarrow> suffix (rx st') (rx st)"

lemma upgradeToTLS_fields:
  "upgradeToTLS st = (r, st') \<Longrightarrow>
     buffer st' = buffer st \<and> incoming st' = incoming st \<and> written st' = written st
     \<and> hsVersion st' = hsVersion st \<and> protocol1 st' = protocol1 st \<and> protocol2 st' = protocol2 st"
  by (cases r)
    (auto simp: upgradeToTLS_def andThen_Inr andThen_Inl cleanup_def setupDataHandler_def
      split: if_splits)

lemma io_rel_consumes: "io_rel 0 consumes"
proof -
  have "stepwise consumes"
    by (auto simp: stepwise_def consumes_def intro: suffix_order.trans)
  moreover have "always consumes (readBytes count)" for count
    unfolding always_def
  proof
    fix st
    obtain r st' where a: "readBytes count st = (r, st')"
      by (cases "readBytes count st")
    from readBytes_rx [OF a] have "suffix (rx st') (rx st)"
      by (auto simp: suffix_drop split: if_splits)
    with a show "consumes st (snd (readBytes count st))"
      by (simp add: consumes_def)
  qed
  moreover have "always consumes (writeFrame payload)" for payload
    unfolding always_def
  proof
    fix st
    obtain r st' where a: "writeFrame payload st = (r, st')"
      by (cases "writeFrame payload st")
    from writeFrame_rx [OF a] a show "consumes st (snd (writeFrame payload st))"
      by (simp add: consumes_def)
  qed
  moreover have "always consumes upgradeToTLS"
    unfolding always_def
  proof
    fix st
    obtain r st' where a: "upgradeToTLS st = (r, st')"
      by (cases "upgradeToTLS st")
    from upgradeToTLS_fields [OF a] a show "consumes st (snd (upgradeToTLS st))"
      by (auto simp: consumes_def rx_def)
  qed
  ultimately show ?thesis
    by (simp add: io_rel_def)
qed

subsection \<open>The negotiated values stay\<close>

definition keeps_negotiated :: "hs \<Rightarrow> hs \<Rightarrow> bool" where
  "keeps_negotiated st st' \<longleftrightarrow>
     hsVersion st' = hsVersion st \<and> protocol1 st' = protocol1 st \<and> protocol2 st' = protocol2 st"

lemma writeFrame_Inr:
  "writeFrame payload st = (Inr u, st') \<longleftrightarrow>
     (\<exists>len. packInt (int (length payload) + 4) = Inr len
            \<and> st' = st\<lparr>written := written st @ [len, payload]\<rparr>)"
  by (auto simp: writeFrame_def stream_write_def andThen_Inr)

lemma writeFrame_Inl:
  "writeFrame payload st = (Inl e, st') \<Longrightarrow> st' = st"
  by (auto simp: writeFrame_def stream_write_def andThen_Inl)

lemma io_rel_keeps_negotiated: "io_rel 0 keeps_negotiated"
proof -
  have "stepwise keeps_negotiated"
    by (auto simp: stepwise_def keeps_negotiated_def)
  moreover have "always keeps_negotiated (readBytes count)" for count
    by (rule readBytes_always) (simp add: keeps_negotiated_def)
  moreover have "always keeps_negotiated (writeFrame payload)" for payload
    unfolding always_def
  proof
    fix st
    obtain r st' where a: "writeFrame payload st = (r, st')"
      by (cases "writeFrame payload st")
    then have "keeps_negotiated st st'"
      by (cases r) (auto simp: keeps_negotiated_def writeFrame_Inr dest: writeFrame_Inl)
    with a show "keeps_negotiated st (snd (writeFrame payload st))"
      by simp
  qed
  moreover have "always keeps_negotiated upgradeToTLS"
    unfolding always_def
  proof
    fix st
    obtain r st' where a: "upgradeToTLS st = (r, st')"
      by (cases "upgradeToTLS st")
    from upgradeToTLS_fields [OF a] a show "keeps_negotiated st (snd (upgradeToTLS st))"
      by (auto simp: keeps_negotiated_def)
  qed
  ultimately show ?thesis
    by (simp add: io_rel_def)
qed

subsection \<open>Only whole opcoded frames are written\<close>

lemma frames_of_append:
  "even (length ws) \<Longrightarrow> frames_of (ws @ ws') = frames_of ws @ frames_of ws'"
  by (induction ws rule: frames_of.induct) auto

lemma frames_of_length: "length (frames_of ws) = length ws div 2"
  by (induction ws rule: frames_of.induct) auto

definition sends_frames :: "hs \<Rightarrow> hs \<Rightarrow> bool" where
  "sends_frames st st' \<longleftrightarrow>
     (\<exists>ws. written st' = written st @ ws \<and> even (length ws)
           \<and> list_all opcoded_frame (frames_of ws))"

lemma stepwise_sends_frames: "stepwise sends_frames"
proof -
  have "sends_frames a a" for a
    by (simp add: sends_frames_def)
  moreover have "sends_frames a c" if "sends_frames a b" "sends_frames b c" for a b c
  proof -
    from that obtain ws ws' where
      "written b = written a @ ws" "even (length ws)" "list_all opcoded_frame (frames_of ws)"
      "written c = written b @ ws'" "even (length ws')" "list_all opcoded_frame (frames_of ws')"
      by (auto simp: sends_frames_def)
    then have "written c = written a @ (ws @ ws')" "even (length (ws @ ws'))"
      "list_all opcoded_frame (frames_of (ws @ ws'))"
      by (simp_all add: frames_of_append)
    then show ?thesis
      unfolding sends_frames_def by blast
  qed
  ultimately show ?thesis
    unfolding stepwise_def by blast
qed

lemma opcoded_frame_packInt:
  assumes "packInt (int (length payload) + 4) = Inr len" "2 \<le> length payload"
  shows "opcoded_frame (len @ payload)"
proof -
  from packInt_unpackInt [OF assms(1)]
  have "length len = 4" "readInt32BE len = Inr (int (length payload) + 4)"
    by (simp_all add: unpackInt_def)
  with assms(2) show ?thesis
    by (simp add: opcoded_frame_def frame_length_def)
qed

lemma io_rel_sends_frames: "io_rel 2 sends_frames"
proof -
  have "always sends_frames (readBytes count)" for count
    by (rule readBytes_always) (simp add: sends_frames_def)
  moreover have "always sends_frames (writeFrame payload)" if "2 \<le> length payload" for payload
    unfolding always_def
  proof
    fix st
    obtain r st' where a: "writeFrame payload st = (r, st')"
      by (cases "writeFrame payload st")
    show "sends_frames st (snd (writeFrame payload st))"
    proof (cases r)
      case (Inl e)
      with a have "st' = st"
        by (auto dest: writeFrame_Inl)
      with a show ?thesis
        by (simp add: sends_frames_def)
    next
      case (Inr u)
      with a obtain len where
        "packInt (int (length payload) + 4) = Inr len"
        "st' = st\<lparr>written := written st @ [len, payload]\<rparr>"
        by (auto simp: writeFrame_Inr)
      with that opcoded_frame_packInt [of payload len]
      have "written st' = written st @ [len, payload]" "even (length [len, payload])"
        "list_all opcoded_frame (frames_of [len, payload])"
        by simp_all
      then have "sends_frames st st'"
        unfolding sends_frames_def by blast
      with a show ?thesis
        by simp
    qed
  qed
  moreover have "always sends_frames upgradeToTLS"
    unfolding always_def
  proof
    fix st
    obtain r st' where a: "upgradeToTLS st = (r, st')"
      by (cases "upgradeToTLS st")
    from upgradeToTLS_fields [OF a] a show "sends_frames st (snd (upgradeToTLS st))"
      by (auto simp: sends_frames_def)
  qed
  ultimately show ?thesis
    using stepwise_sends_frames by (simp add: io_rel_def)
qed

lemma always_sendHandshakeByVersion:
  assumes "io_rel 2 R"
  shows "always R (sendHandshakeByVersion user pgOptions)"
  unfolding sendHandshakeByVersion_def sendHandshakeVersion2_def sendHandshakeVersion4_def
  by (intro always_intros io_rel_stepwise [OF assms] always_sendSteps always_stepsVersion assms)

lemma always_takeRemaining:
  assumes "stepwise R" "\<And>st. R st (st\<lparr>buffer := []\<rparr>)"
  shows "always R takeRemaining"
  unfolding takeRemaining_def
  by (intro always_intros always_modify assms)

section \<open>Frames carry their own length\<close>

lemma setNextDataProtocol_written: "written (snd (setNextDataProtocol st)) = written st"
  by (simp add: setNextDataProtocol_def)

lemma sends_frames_setNextDataProtocol: "always sends_frames setNextDataProtocol"
  unfolding always_def sends_frames_def setNextDataProtocol_written by simp

lemma sends_frames_sent_by:
  assumes "sends_frames st st'"
  shows "written st' = written st @ sent_by st st' \<and> even (length (sent_by st st'))
         \<and> list_all opcoded_frame (frames_of (sent_by st st'))"
  using assms by (auto simp: sends_frames_def sent_by_def)

text \<open>
  Claim C7. Whatever the server replies, and whether phases 1 and 2 end by returning or by
  throwing, what \<open>negotiateHandshake\<close> and \<open>sendHandshakeInfo\<close> write is a sequence of whole
  frames (CLIENT_BEGIN, DB, SSL_NEGOTIATE, SSL_CONNECT and the metadata frames), each of the
  layout \<open>len \<parallel> opcode \<parallel> body\<close>: at least six bytes, whose first four bytes, read as a
  big-endian int32, are the number of bytes of the frame (itself, opcode and body).
\<close>

theorem phase12_frames_length_prefixed:
  "written (snd (negotiateHandshake st)) = written st @ sent_by st (snd (negotiateHandshake st))
   \<and> even (length (sent_by st (snd (negotiateHandshake st))))
   \<and> list_all opcoded_frame (frames_of (sent_by st (snd (negotiateHandshake st))))
   \<and> written (snd (sendHandshakeInfo database securityLevel user pgOptions st))
       = written st @ sent_by st (snd (sendHandshakeInfo database securityLevel user pgOptions st))
   \<and> even (length (sent_by st (snd (sendHandshakeInfo database securityLevel user pgOptions st))))
   \<and> list_all opcoded_frame
        (frames_of (sent_by st (snd (sendHandshakeInfo database securityLevel user pgOptions st))))"
proof -
  have "always sends_frames negotiateHandshake"
    by (rule always_negotiateHandshake [OF io_rel_sends_frames]) (simp add: sends_frames_def)
  then have 1: "sends_frames st (snd (negotiateHandshake st))"
    by (simp add: always_def)
  have "always sends_frames (sendHandshakeInfo database securityLevel user pgOptions)"
    by (rule always_sendHandshakeInfo [OF io_rel_sends_frames sends_frames_setNextDataProtocol])
  then have 2: "sends_frames st (snd (sendHandshakeInfo database securityLevel user pgOptions st))"
    by (simp add: always_def)
  from sends_frames_sent_by [OF 1] sends_frames_sent_by [OF 2] show ?thesis
    by blast
qed

section \<open>What the phases do when they succeed\<close>

lemma signed16:
  fixes v :: int
  assumes "- 32768 \<le> v" "v \<le> 32767"
  shows "(if v mod 2 ^ 16 \<ge> 2 ^ 15 then v mod 2 ^ 16 - 2 ^ 16 else v mod 2 ^ 16) = v"
proof (cases "v < 0")
  case True
  have "(v + 2 ^ 16) mod 2 ^ 16 = v + 2 ^ 16"
    using assms True by (intro mod_pos_pos_trivial) simp_all
  then have "v mod 2 ^ 16 = v + 2 ^ 16" by simp
  then show ?thesis using True assms by simp
next
  case False
  then have "v mod 2 ^ 16 = v" using assms by simp
  then show ?thesis using assms by simp
qed

lemma bytes2:
  fixes w :: int
  assumes "0 \<le> w" "w < 2 ^ 16"
  shows "(w div 2 ^ 8 mod 256) * 2 ^ 8 + w mod 256 = w"
proof -
  have "0 \<le> w div 2 ^ 8" "w div 2 ^ 8 < 256"
    using assms by (simp_all add: div_less_iff_less_mult pos_imp_zdiv_nonneg_iff)
  then have "w div 2 ^ 8 mod 256 = w div 2 ^ 8"
    by simp
  then show ?thesis
    by simp
qed

lemma readInt16BE_chars:
  "readInt16BE (char_of (a :: int) # char_of (b :: int) # rest) =
     (let u = a mod 256 * 2 ^ 8 + b mod 256
      in Inr (if u \<ge> 2 ^ 15 then u - 2 ^ 16 else u))"
  by (simp only: readInt16BE.simps of_char_of)

lemma packShort_readInt16BE:
  assumes "packShort v = Inr bs"
  shows "readInt16BE (bs @ rest) = Inr v"
proof -
  from assms have rng: "- 32768 \<le> v" "v \<le> 32767"
    by (auto simp: packShort_def writeInt16BE_def split: if_splits)
  define w where "w = v mod 2 ^ 16"
  have w: "0 \<le> w" "w < 2 ^ 16" by (simp_all add: w_def)
  from assms rng have bs: "bs @ rest = char_of (w div 2 ^ 8) # char_of w # rest"
    by (auto simp: packShort_def writeInt16BE_def w_def Let_def)
  have "readInt16BE (bs @ rest) = Inr (if w \<ge> 2 ^ 15 then w - 2 ^ 16 else w)"
    unfolding bs readInt16BE_chars Let_def bytes2 [OF w] ..
  also have "\<dots> = Inr v"
    unfolding w_def signed16 [OF rng] ..
  finally show ?thesis .
qed

lemma frame_opcode_packShort:
  assumes "packInt n = Inr len" "packShort v = Inr op"
  shows "frame_opcode (len @ op @ body) = Inr v"
proof -
  from packInt_unpackInt [OF assms(1)] have "length len = 4"
    by simp
  then show ?thesis
    by (simp add: frame_opcode_def packShort_readInt16BE [OF assms(2)])
qed


lemma rx_update [simp]:
  "rx (st\<lparr>written := w\<rparr>) = rx st"
  "rx (st\<lparr>hsVersion := v\<rparr>) = rx st"
  "rx (st\<lparr>protocol1 := p1\<rparr>) = rx st"
  "rx (st\<lparr>protocol2 := p2\<rparr>) = rx st"
  "rx (st\<lparr>dataHandler := d\<rparr>) = rx st"
  "rx (st\<lparr>secure := s\<rparr>) = rx st"
  by (simp_all add: rx_def)

lemma readBytes_InrD:
  "readBytes count st = (Inr bytes, st') \<Longrightarrow>
     length bytes = count \<and> rx st = bytes @ rx st' \<and> written st' = written st
     \<and> keeps_negotiated st st'"
  by (frule readBytes_fields, drule readBytes_Inr) (auto simp: keeps_negotiated_def)

lemma negotiateStep_Inr:
  assumes "negotiateStep version st = (Inr outcome, st')"
  shows "\<exists>opcode ver len.
           packShort HSV2_CLIENT_BEGIN = Inr opcode \<and> packShort version = Inr ver
           \<and> packInt 8 = Inr len \<and> written st' = written st @ [len, opcode @ ver]
           \<and> protocol1 st' = protocol1 st
           \<and> (outcome = Return True \<and> rx st = ''N'' @ rx st'
                \<and> hsVersion st' = Some version \<and> protocol2 st' = Some 0
              \<or> (\<exists>d version'. outcome = Continue version' \<and> rx st = CHR ''M'' # d # rx st'
                    \<and> (d, version') \<in> {(CHR ''2'', 2), (CHR ''3'', 3), (CHR ''4'', 4), (CHR ''5'', 5)}
                    \<and> hsVersion st' = hsVersion st \<and> protocol2 st' = protocol2 st))"
  using assms unfolding negotiateStep_def
  apply (elim andThen_InrE)
  apply (simp add: writeFrame_Inr packShort_length)
  apply (elim exE conjE)
  apply (drule readBytes_InrD)
  apply (simp split: if_splits)
   apply (auto simp: keeps_negotiated_def andThen_Inr)[1]
  apply (elim andThen_InrE)
  apply (drule readBytes_InrD)
  apply (auto simp: keeps_negotiated_def split: if_splits)
  done

lemma sent_by_append: "written st' = written st @ ws \<Longrightarrow> sent_by st st' = ws"
  by (simp add: sent_by_def)

text \<open>The version a counter-offer digit stands for.\<close>

definition offer_version :: "char \<Rightarrow> int" where
  "offer_version d = of_char d - 48"

lemma negotiateHandshake_loop_Inr:
  assumes "negotiateHandshake_loop version st = (Inr result, st')"
  shows "\<exists>offers. result = True
           \<and> rx st = concat (map (\<lambda>d. [CHR ''M'', d]) offers) @ ''N'' @ rx st'
           \<and> set offers \<subseteq> {CHR ''2'', CHR ''3'', CHR ''4'', CHR ''5''}
           \<and> hsVersion st' = Some (last (version # map offer_version offers))
           \<and> protocol2 st' = Some 0 \<and> protocol1 st' = protocol1 st
           \<and> written st' = written st @ sent_by st st'
           \<and> length (sent_by st st') = 2 * Suc (length offers)
           \<and> map frame_opcode (frames_of (sent_by st st'))
               = replicate (Suc (length offers)) (Inr HSV2_CLIENT_BEGIN)"
  using assms
proof (induction version st arbitrary: result st' rule: negotiateHandshake_loop.induct)
  case (1 version st)
  from "1.prems" obtain outcome st1 where
    step: "negotiateStep version st = (Inr outcome, st1)" and
    rest: "(case outcome of Return r \<Rightarrow> ret r st1
            | Continue version' \<Rightarrow> negotiateHandshake_loop version' st1) = (Inr result, st')"
    by (subst (asm) negotiateHandshake_loop.simps) (erule andThen_InrE)
  from negotiateStep_Inr [OF step] obtain opcode ver len where
    p: "packShort HSV2_CLIENT_BEGIN = Inr opcode" "packInt 8 = Inr len" and
    w: "written st1 = written st @ [len, opcode @ ver]" and
    p1: "protocol1 st1 = protocol1 st" and
    alt: "outcome = Return True \<and> rx st = ''N'' @ rx st1
            \<and> hsVersion st1 = Some version \<and> protocol2 st1 = Some 0
          \<or> (\<exists>d version'. outcome = Continue version' \<and> rx st = CHR ''M'' # d # rx st1
                \<and> (d, version') \<in> {(CHR ''2'', 2), (CHR ''3'', 3), (CHR ''4'', 4), (CHR ''5'', 5)}
                \<and> hsVersion st1 = hsVersion st \<and> protocol2 st1 = protocol2 st)"
    by blast
  have op: "frame_opcode (len @ opcode @ ver) = Inr HSV2_CLIENT_BEGIN"
    using p by (intro frame_opcode_packShort)
  show ?case
  proof (cases outcome)
    case (Return r)
    with rest alt have e: "st' = st1" "result = True" "rx st = ''N'' @ rx st'"
      "hsVersion st' = Some version" "protocol2 st' = Some 0"
      by auto
    from w e have s: "sent_by st st' = [len, opcode @ ver]"
      by (intro sent_by_append) simp
    have "result = True
           \<and> rx st = concat (map (\<lambda>d. [CHR ''M'', d]) []) @ ''N'' @ rx st'
           \<and> set [] \<subseteq> {CHR ''2'', CHR ''3'', CHR ''4'', CHR ''5''}
           \<and> hsVersion st' = Some (last (version # map offer_version []))
           \<and> protocol2 st' = Some 0 \<and> protocol1 st' = protocol1 st
           \<and> written st' = written st @ sent_by st st'
           \<and> length (sent_by st st') = 2 * Suc (length ([] :: string))
           \<and> map frame_opcode (frames_of (sent_by st st'))
               = replicate (Suc (length ([] :: string))) (Inr HSV2_CLIENT_BEGIN)"
      using e p1 w op unfolding s by simp
    then show ?thesis
      by (rule exI)
  next
    case (Continue version')
    with alt obtain d where
      m: "rx st = CHR ''M'' # d # rx st1"
        "(d, version') \<in> {(CHR ''2'', 2), (CHR ''3'', 3), (CHR ''4'', 4), (CHR ''5'', 5)}"
      by auto
    from rest Continue have "negotiateHandshake_loop version' st1 = (Inr result, st')"
      by simp
    from "1.IH" [OF step Continue this] obtain offers where
      ih: "result = True"
        "rx st1 = concat (map (\<lambda>d. [CHR ''M'', d]) offers) @ ''N'' @ rx st'"
        "set offers \<subseteq> {CHR ''2'', CHR ''3'', CHR ''4'', CHR ''5''}"
        "hsVersion st' = Some (last (version' # map offer_version offers))"
        "protocol2 st' = Some 0" "protocol1 st' = protocol1 st1"
        "written st' = written st1 @ sent_by st1 st'"
        "length (sent_by st1 st') = 2 * Suc (length offers)"
        "map frame_opcode (frames_of (sent_by st1 st'))
           = replicate (Suc (length offers)) (Inr HSV2_CLIENT_BEGIN)"
      by blast
    from m(2) have v: "version' = offer_version d" "d \<in> {CHR ''2'', CHR ''3'', CHR ''4'', CHR ''5''}"
      by (auto simp: offer_version_def)
    from w ih(7) have s: "sent_by st st' = len # (opcode @ ver) # sent_by st1 st'"
      by (intro sent_by_append) simp
    have "result = True
           \<and> rx st = concat (map (\<lambda>d. [CHR ''M'', d]) (d # offers)) @ ''N'' @ rx st'
           \<and> set (d # offers) \<subseteq> {CHR ''2'', CHR ''3'', CHR ''4'', CHR ''5''}
           \<and> hsVersion st' = Some (last (version # map offer_version (d # offers)))
           \<and> protocol2 st' = Some 0 \<and> protocol1 st' = protocol1 st
           \<and> written st' = written st @ sent_by st st'
           \<and> length (sent_by st st') = 2 * Suc (length (d # offers))
           \<and> map frame_opcode (frames_of (sent_by st st'))
               = replicate (Suc (length (d # offers))) (Inr HSV2_CLIENT_BEGIN)"
      using ih m(1) v p1 w op unfolding s by simp
    then show ?thesis
      by (rule exI)
  qed
qed

section \<open>The sub-protocol pair\<close>

lemma io_rel2_keeps_negotiated: "io_rel 2 keeps_negotiated"
  using io_rel_keeps_negotiated by (rule io_rel_mono) simp

lemma keeps_sendDatabase:
  "sendDatabase database st = (r, st') \<Longrightarrow> keeps_negotiated st st'"
  by (rule alwaysD [OF always_sendDatabase [OF io_rel2_keeps_negotiated]])

lemma keeps_secureSession:
  "secureSession securityLevel st = (r, st') \<Longrightarrow> keeps_negotiated st st'"
  by (rule alwaysD [OF always_secureSession [OF io_rel2_keeps_negotiated]])

lemma keeps_sendHandshakeByVersion:
  "sendHandshakeByVersion user pgOptions st = (r, st') \<Longrightarrow> keeps_negotiated st st'"
  by (rule alwaysD [OF always_sendHandshakeByVersion [OF io_rel2_keeps_negotiated]])

lemma keeps_authenticate:
  "authenticate md5 sha256 password st = (r, st') \<Longrightarrow> keeps_negotiated st st'"
  by (rule alwaysD [OF always_authenticate [OF io_rel_keeps_negotiated]])

lemma keeps_waitConnectionComplete:
  "waitConnectionComplete st = (r, st') \<Longrightarrow> keeps_negotiated st st'"
  by (rule alwaysD [OF always_waitConnectionComplete [OF io_rel_keeps_negotiated]])

lemma keeps_takeRemaining:
  assumes "takeRemaining st = (r, st')"
  shows "keeps_negotiated st st'"
proof -
  have "always keeps_negotiated takeRemaining"
    by (rule always_takeRemaining)
      (simp_all add: io_rel_stepwise [OF io_rel_keeps_negotiated] keeps_negotiated_def)
  then show ?thesis
    using assms by (rule alwaysD)
qed

lemma if_io_eq:
  "(if c then f else g) st = res \<longleftrightarrow> c \<and> f st = res \<or> \<not> c \<and> g st = res"
  by simp

lemma sendHandshakeInfo_Inr:
  "sendHandshakeInfo database securityLevel user pgOptions st = (Inr True, st') \<longleftrightarrow>
     (\<exists>st1 st2 st3.
        sendDatabase database st = (Inr True, st1)
        \<and> setNextDataProtocol st1 = (Inr True, st2)
        \<and> secureSession securityLevel st2 = (Inr True, st3)
        \<and> sendHandshakeByVersion user pgOptions st3 = (Inr True, st'))"
  unfolding sendHandshakeInfo_def
  by (auto simp: andThen_Inr if_io_eq)

lemma startup_Inr:
  "startup md5 sha256 database securityLevel user password pgOptions st = (Inr result, st') \<longleftrightarrow>
     (\<exists>st1 st2 st3 st4.
        negotiateHandshake st = (Inr True, st1)
        \<and> sendHandshakeInfo database securityLevel user pgOptions st1 = (Inr True, st2)
        \<and> authenticate md5 sha256 password st2 = (Inr True, st3)
        \<and> waitConnectionComplete st3 = (Inr True, st4)
        \<and> takeRemaining st4 = (Inr result, st'))"
  unfolding startup_def onError_Inr
  by (auto simp: andThen_Inr if_io_eq)

lemma setNextDataProtocol_sentinel:
  "protocol2 st = Some 0 \<Longrightarrow>
     setNextDataProtocol st
       = (Inr True, st\<lparr>protocol2 := Some PG_PROTOCOL_5, protocol1 := Some PG_PROTOCOL_3\<rparr>)"
  by (simp add: setNextDataProtocol_def)

lemma sendHandshakeInfo_pair:
  assumes "sendHandshakeInfo database securityLevel user pgOptions st = (Inr True, st')"
    and "protocol2 st = Some 0"
  shows "protocol1 st' = Some 3 \<and> protocol2 st' = Some 5"
proof -
  from assms(1) obtain st1 st2 st3 where
    a: "sendDatabase database st = (Inr True, st1)" and
    b: "setNextDataProtocol st1 = (Inr True, st2)" and
    c: "secureSession securityLevel st2 = (Inr True, st3)" and
    d: "sendHandshakeByVersion user pgOptions st3 = (Inr True, st')"
    unfolding sendHandshakeInfo_Inr by blast
  from keeps_sendDatabase [OF a] assms(2) have "protocol2 st1 = Some 0"
    by (simp add: keeps_negotiated_def)
  from setNextDataProtocol_sentinel [OF this] b
  have "protocol1 st2 = Some 3" "protocol2 st2 = Some 5"
    by auto
  with keeps_secureSession [OF c] keeps_sendHandshakeByVersion [OF d] show ?thesis
    by (simp add: keeps_negotiated_def)
qed

text \<open>
  Claim C10. \<open>setNextDataProtocol\<close> is called once, in \<open>sendHandshakeInfo\<close> after the
  database frame, and the state it is called in comes from a \<open>negotiateHandshake\<close> that
  returned, so that \<open>protocol2\<close> is the sentinel 0 there: the call takes the first branch, sets
  the pair to 3.5 and returns \<open>true\<close> (the branches to 4 and to 3 and the \<open>false\<close> of the
  exhausted walk are not taken). No later step of \<open>startup\<close> assigns the pair, so it is 3.5
  on every successful return.
\<close>

theorem startup_protocol_pair:
  "(negotiateHandshake st = (Inr negotiated, st1) \<longrightarrow> sendDatabase database st1 = (r, st2)
      \<longrightarrow> setNextDataProtocol st2
            = (Inr True, st2\<lparr>protocol2 := Some PG_PROTOCOL_5, protocol1 := Some PG_PROTOCOL_3\<rparr>))
   \<and> (startup md5 sha256 database securityLevel user password pgOptions st = (Inr result, st')
      \<longrightarrow> protocol1 st' = Some 3 \<and> protocol2 st' = Some 5)"
proof (rule conjI; intro impI)
  assume "negotiateHandshake st = (Inr negotiated, st1)" "sendDatabase database st1 = (r, st2)"
  then have "protocol2 st2 = Some 0"
    using negotiateHandshake_loop_Inr [of CP_VERSION_6 st negotiated st1]
      keeps_sendDatabase [of database st1 r st2]
    by (auto simp: negotiateHandshake_def keeps_negotiated_def)
  then show "setNextDataProtocol st2
      = (Inr True, st2\<lparr>protocol2 := Some PG_PROTOCOL_5, protocol1 := Some PG_PROTOCOL_3\<rparr>)"
    by (rule setNextDataProtocol_sentinel)
next
  assume "startup md5 sha256 database securityLevel user password pgOptions st = (Inr result, st')"
  then obtain s1 s2 s3 s4 where
    n: "negotiateHandshake st = (Inr True, s1)" and
    i: "sendHandshakeInfo database securityLevel user pgOptions s1 = (Inr True, s2)" and
    a: "authenticate md5 sha256 password s2 = (Inr True, s3)" and
    w: "waitConnectionComplete s3 = (Inr True, s4)" and
    t: "takeRemaining s4 = (Inr result, st')"
    unfolding startup_Inr by blast
  from negotiateHandshake_loop_Inr [of CP_VERSION_6 st True s1] n have "protocol2 s1 = Some 0"
    by (auto simp: negotiateHandshake_def)
  from sendHandshakeInfo_pair [OF i this]
    keeps_authenticate [OF a] keeps_waitConnectionComplete [OF w] keeps_takeRemaining [OF t]
  show "protocol1 st' = Some 3 \<and> protocol2 st' = Some 5"
    by (simp add: keeps_negotiated_def)
qed

definition scenario1 :: "string list" where
  "scenario1 =
     [''N'', ''N'', ''N'', ''NNNNNNNNN'', CHR ''R'' # [CHR 0x00, CHR 0x00, CHR 0x00, CHR 0x03],
      CHR ''R'' # [CHR 0x00, CHR 0x00, CHR 0x00, CHR 0x00],
      CHR ''K'' # replicate 8 (CHR 0x00) @ [CHR 0x00, CHR 0x00, CHR 0x00, CHR ''*'',
                                           CHR 0x00, CHR 0x00, CHR 0x00, CHR ''c''],
      CHR ''Z'' # replicate 8 (CHR 0x00)]"

theorem startup_protocol_pair_witness:
  "fst (startup no_digest no_digest ''mydb'' 0 ''u'' ''pw'' [] (new_driver scenario1))
     = Inr \<lparr>success = True, remainingBuffer = [], needsInitialization = True\<rparr>
   \<and> protocol1 (snd (startup no_digest no_digest ''mydb'' 0 ''u'' ''pw'' [] (new_driver scenario1)))
       = Some 3
   \<and> protocol2 (snd (startup no_digest no_digest ''mydb'' 0 ''u'' ''pw'' [] (new_driver scenario1)))
       = Some 5"
proof -
  have h: "fst (startup no_digest no_digest ''mydb'' 0 ''u'' ''pw'' [] (new_driver scenario1))
     = Inr \<lparr>success = True, remainingBuffer = [], needsInitialization = True\<rparr>"
    by code_simp
  then have "startup no_digest no_digest ''mydb'' 0 ''u'' ''pw'' [] (new_driver scenario1)
     = (Inr \<lparr>success = True, remainingBuffer = [], needsInitialization = True\<rparr>,
        snd (startup no_digest no_digest ''mydb'' 0 ''u'' ''pw'' [] (new_driver scenario1)))"
    by (metis prod.collapse)
  with startup_protocol_pair [of "new_driver scenario1" _ _ "''mydb''" _ _ no_digest no_digest
      0 "''u''" "''pw''" "[]"] h
  show ?thesis
    by blast
qed

section \<open>The negotiation loop\<close>

lemma packShort_small [simp]:
  "packShort 1 = Inr [CHR 0x00, CHR 0x01]"
  "packShort 2 = Inr [CHR 0x00, CHR 0x02]"
  "packShort 3 = Inr [CHR 0x00, CHR 0x03]"
  "packShort 4 = Inr [CHR 0x00, CHR 0x04]"
  "packShort 5 = Inr [CHR 0x00, CHR 0x05]"
  "packShort 6 = Inr [CHR 0x00, CHR 0x06]"
  "packShort 11 = Inr [CHR 0x00, CHR 0x0B]"
  "packShort 12 = Inr [CHR 0x00, CHR 0x0C]"
  by (simp_all add: packShort_def writeInt16BE_def char_of_def)

lemma packInt_small [simp]:
  "packInt 0 = Inr [CHR 0x00, CHR 0x00, CHR 0x00, CHR 0x00]"
  "packInt 1 = Inr [CHR 0x00, CHR 0x00, CHR 0x00, CHR 0x01]"
  "packInt 3 = Inr [CHR 0x00, CHR 0x00, CHR 0x00, CHR 0x03]"
  "packInt 5 = Inr [CHR 0x00, CHR 0x00, CHR 0x00, CHR 0x05]"
  "packInt 6 = Inr [CHR 0x00, CHR 0x00, CHR 0x00, CHR 0x06]"
  "packInt 8 = Inr [CHR 0x00, CHR 0x00, CHR 0x00, CHR 0x08]"
  "packInt 10 = Inr [CHR 0x00, CHR 0x00, CHR 0x00, CHR 0x0A]"
  by (simp_all add: packInt_def writeInt32BE_def char_of_def)

lemma writeFrame_small:
  assumes "packInt (int (length payload) + 4) = Inr len"
  shows "writeFrame payload st = (Inr (), st\<lparr>written := written st @ [len, payload]\<rparr>)"
  using assms by (simp add: writeFrame_Inr)

lemma readBytes_next:
  assumes "rx st = bytes @ rest" "length bytes = count"
  obtains st' where "readBytes count st = (Inr bytes, st')" "rx st' = rest"
    "written st' = written st" "keeps_negotiated st st'"
proof -
  from assms have "count \<le> length (rx st)"
    by simp
  from readBytes_enough [OF this] obtain st' b i where
    "readBytes count st = (Inr (take count (rx st)), st')" "rx st' = drop count (rx st)"
    "st' = st\<lparr>buffer := b, incoming := i\<rparr>"
    by blast
  with assms that [of st'] show ?thesis
    by (simp add: keeps_negotiated_def)
qed

text \<open>
  The CLIENT_BEGIN frame of a version from 0 to 255 on the wire,
  \<open>len(int32 BE) \<parallel> opcode(int16 BE) \<parallel> version(int16 BE)\<close>, and the two writes that send it.
\<close>

definition client_begin_frame :: "int \<Rightarrow> string" where
  "client_begin_frame version =
     [CHR 0x00, CHR 0x00, CHR 0x00, CHR 0x08, CHR 0x00, CHR 0x01, CHR 0x00, char_of version]"

definition client_begin_writes :: "int \<Rightarrow> string list" where
  "client_begin_writes version =
     [take 4 (client_begin_frame version), drop 4 (client_begin_frame version)]"

lemma frames_of_client_begin:
  "frames_of (concat (map client_begin_writes versions)) = map client_begin_frame versions"
  by (induction versions) (simp_all add: client_begin_writes_def client_begin_frame_def)

lemma packShort_version:
  "version \<in> {2, 3, 4, 5, 6} \<Longrightarrow> packShort version = Inr [CHR 0x00, char_of version]"
  by (auto simp: char_of_def)

lemma writeFrame_client_begin:
  assumes "version \<in> {2, 3, 4, 5, 6}"
  shows "writeFrame ([CHR 0x00, CHR 0x01] @ [CHR 0x00, char_of version]) st
           = (Inr (), st\<lparr>written := written st @ client_begin_writes version\<rparr>)"
  by (simp add: writeFrame_Inr client_begin_writes_def client_begin_frame_def)

text \<open>What one pass of the loop does on a counter-offer, and on an acceptance.\<close>

lemma negotiateStep_counter_offer:
  assumes "rx st = CHR ''M'' # d # rest" "version \<in> {2, 3, 4, 5, 6}"
  obtains st' where
    "negotiateStep version st =
       (if d \<in> {CHR ''2'', CHR ''3'', CHR ''4'', CHR ''5''} then Inr (Continue (offer_version d))
        else Inl (UnsupportedVersion (toString_utf8 [d])), st')"
    "rx st' = rest" "written st' = written st @ client_begin_writes version"
    "hsVersion st' = hsVersion st"
proof -
  define st1 where "st1 = st\<lparr>written := written st @ client_begin_writes version\<rparr>"
  note v = packShort_version [OF assms(2)]
  have w: "writeFrame ([CHR 0x00, CHR 0x01] @ [CHR 0x00, char_of version]) st = (Inr (), st1)"
    unfolding st1_def using assms(2) by (rule writeFrame_client_begin)
  have "rx st1 = ''M'' @ d # rest"
    using assms(1) by (simp add: st1_def)
  then obtain st2 where r1: "readBytes 1 st1 = (Inr ''M'', st2)" "rx st2 = [d] @ rest"
    "written st2 = written st1" "keeps_negotiated st1 st2"
    using readBytes_next [of st1 "''M''" "d # rest" 1] by auto
  then obtain st3 where r2: "readBytes 1 st2 = (Inr [d], st3)" "rx st3 = rest"
    "written st3 = written st2" "keeps_negotiated st2 st3"
    using readBytes_next [of st2 "[d]" rest 1] by auto
  have "negotiateStep version st =
       (if d \<in> {CHR ''2'', CHR ''3'', CHR ''4'', CHR ''5''} then Inr (Continue (offer_version d))
        else Inl (UnsupportedVersion (toString_utf8 [d])), st3)"
    using v w r1(1) r2(1)
    by (simp add: negotiateStep_def andThen_def lift_def ret_def throw_def offer_version_def)
  moreover have "written st3 = written st @ client_begin_writes version"
    "hsVersion st3 = hsVersion st"
    using r1(3,4) r2(3,4) by (simp_all add: st1_def keeps_negotiated_def)
  ultimately show ?thesis
    using r2(2) that by blast
qed

lemma negotiateStep_accept:
  assumes "rx st = CHR ''N'' # rest" "version \<in> {2, 3, 4, 5, 6}"
  obtains st' where
    "negotiateStep version st = (Inr (Return True), st')"
    "rx st' = rest" "written st' = written st @ client_begin_writes version"
    "hsVersion st' = Some version"
proof -
  define st1 where "st1 = st\<lparr>written := written st @ client_begin_writes version\<rparr>"
  note v = packShort_version [OF assms(2)]
  have w: "writeFrame ([CHR 0x00, CHR 0x01] @ [CHR 0x00, char_of version]) st = (Inr (), st1)"
    unfolding st1_def using assms(2) by (rule writeFrame_client_begin)
  have "rx st1 = ''N'' @ rest"
    using assms(1) by (simp add: st1_def)
  then obtain st2 where r1: "readBytes 1 st1 = (Inr ''N'', st2)" "rx st2 = rest"
    "written st2 = written st1"
    using readBytes_next [of st1 "''N''" rest 1] by auto
  have "negotiateStep version st
      = (Inr (Return True), st2\<lparr>hsVersion := Some version, protocol2 := Some 0\<rparr>)"
    using v w r1(1)
    by (simp add: negotiateStep_def andThen_def lift_def ret_def modify_def)
  with r1(2,3) that show ?thesis
    by (simp add: st1_def)
qed

text \<open>
  A run of counter-offers: the loop writes the CLIENT_BEGIN frame of the current version at
  each of them and goes on with the version offered last.
\<close>

lemma offer_version_range:
  "d \<in> {CHR ''2'', CHR ''3'', CHR ''4'', CHR ''5''} \<Longrightarrow> offer_version d \<in> {2, 3, 4, 5, 6}"
  by (auto simp: offer_version_def)

lemma last_offer_range:
  "set offers \<subseteq> {CHR ''2'', CHR ''3'', CHR ''4'', CHR ''5''} \<Longrightarrow> version \<in> {2, 3, 4, 5, 6}
   \<Longrightarrow> last (version # map offer_version offers) \<in> {2, 3, 4, 5, 6}"
proof (induction offers arbitrary: version)
  case Nil
  then show ?case by simp
next
  case (Cons d offers)
  from Cons.prems have "offer_version d \<in> {2, 3, 4, 5, 6}"
    by (intro offer_version_range) simp
  with Cons.IH [of "offer_version d"] Cons.prems show ?case
    by simp
qed

lemma negotiateHandshake_loop_offers:
  assumes "set offers \<subseteq> {CHR ''2'', CHR ''3'', CHR ''4'', CHR ''5''}" "version \<in> {2, 3, 4, 5, 6}"
    and "rx st = concat (map (\<lambda>d. [CHR ''M'', d]) offers) @ reply"
  shows "\<exists>st1. negotiateHandshake_loop version st
                  = negotiateHandshake_loop (last (version # map offer_version offers)) st1
           \<and> rx st1 = reply \<and> hsVersion st1 = hsVersion st
           \<and> written st1 = written st
               @ concat (map client_begin_writes (butlast (version # map offer_version offers)))"
  using assms
proof (induction offers arbitrary: version st)
  case Nil
  then show ?case
    by (intro exI [of _ st]) simp
next
  case (Cons d offers)
  from Cons.prems have d: "d \<in> {CHR ''2'', CHR ''3'', CHR ''4'', CHR ''5''}"
    and rest: "set offers \<subseteq> {CHR ''2'', CHR ''3'', CHR ''4'', CHR ''5''}"
    and rx: "rx st = CHR ''M'' # d # concat (map (\<lambda>d. [CHR ''M'', d]) offers) @ reply"
    by simp_all
  from negotiateStep_counter_offer [OF rx Cons.prems(2)] obtain st2 where
    step0: "negotiateStep version st =
       (if d \<in> {CHR ''2'', CHR ''3'', CHR ''4'', CHR ''5''} then Inr (Continue (offer_version d))
        else Inl (UnsupportedVersion (toString_utf8 [d])), st2)" and
    st2: "rx st2 = concat (map (\<lambda>d. [CHR ''M'', d]) offers) @ reply"
      "written st2 = written st @ client_begin_writes version" "hsVersion st2 = hsVersion st"
    by blast
  from step0 d have step: "negotiateStep version st = (Inr (Continue (offer_version d)), st2)"
    by simp
  from Cons.IH [OF rest offer_version_range [OF d] st2(1)] obtain st1 where
    ih: "negotiateHandshake_loop (offer_version d) st2
           = negotiateHandshake_loop (last (offer_version d # map offer_version offers)) st1"
      "rx st1 = reply" "hsVersion st1 = hsVersion st2"
      "written st1 = written st2
         @ concat (map client_begin_writes (butlast (offer_version d # map offer_version offers)))"
    by blast
  have e: "negotiateHandshake_loop version st = negotiateHandshake_loop (offer_version d) st2"
    by (subst negotiateHandshake_loop.simps) (simp add: andThen_def step)
  have l: "last (version # map offer_version (d # offers))
      = last (offer_version d # map offer_version offers)"
    and b: "butlast (version # map offer_version (d # offers))
      = version # butlast (offer_version d # map offer_version offers)"
    by simp_all
  have "negotiateHandshake_loop version st
          = negotiateHandshake_loop (last (version # map offer_version (d # offers))) st1
        \<and> rx st1 = reply \<and> hsVersion st1 = hsVersion st
        \<and> written st1 = written st
            @ concat (map client_begin_writes (butlast (version # map offer_version (d # offers))))"
    unfolding l b using e ih st2 by simp
  then show ?case
    by (rule exI)
qed

lemma readBytes_written:
  "readBytes count st = (r, st') \<Longrightarrow> written st' = written st \<and> length (rx st') \<le> length (rx st)"
  by (frule readBytes_fields, drule readBytes_rx) (auto split: if_splits)

lemma negotiateStep_Inl:
  assumes "negotiateStep version st = (Inl e, st')"
  shows "length (written st) \<le> length (written st') \<and> length (written st') \<le> length (written st) + 2
         \<and> length (rx st') \<le> length (rx st)"
  using assms unfolding negotiateStep_def
  by (auto simp: andThen_Inl andThen_Inr if_io_eq writeFrame_Inr
      dest!: writeFrame_Inl readBytes_written)

text \<open>
  Every pass writes one frame. A pass that goes on to the next has consumed two bytes, so the
  writes of the loop are bounded by the bytes it was given.
\<close>

lemma negotiateHandshake_loop_bound:
  assumes "negotiateHandshake_loop version st = (r, st')"
  shows "length (written st) \<le> length (written st')
         \<and> length (written st') + length (rx st') \<le> length (written st) + length (rx st) + 2"
  using assms
proof (induction version st arbitrary: r st' rule: negotiateHandshake_loop.induct)
  case (1 version st)
  obtain r1 st1 where step: "negotiateStep version st = (r1, st1)"
    by (cases "negotiateStep version st")
  show ?case
  proof (cases r1)
    case (Inl e)
    with step "1.prems" have "st' = st1"
      by (subst (asm) negotiateHandshake_loop.simps) (simp add: andThen_def)
    with negotiateStep_Inl [of version st e st1] step Inl show ?thesis
      by simp
  next
    case (Inr outcome)
    from negotiateStep_Inr [of version st outcome st1] step Inr obtain len payload where
      w: "written st1 = written st @ [len, payload]" and
      alt: "outcome = Return True \<and> rx st = ''N'' @ rx st1
            \<or> (\<exists>d version'. outcome = Continue version' \<and> rx st = CHR ''M'' # d # rx st1)"
      by auto
    show ?thesis
    proof (cases outcome)
      case (Return result)
      with step Inr "1.prems" have "st' = st1"
        by (subst (asm) negotiateHandshake_loop.simps) (simp add: andThen_def)
      with w alt Return show ?thesis
        by auto
    next
      case (Continue version')
      with step Inr "1.prems" have "negotiateHandshake_loop version' st1 = (r, st')"
        by (subst (asm) negotiateHandshake_loop.simps) (simp add: andThen_def)
      from "1.IH" [of outcome st1 version' r st'] step Inr Continue this
      have "length (written st1) \<le> length (written st')
         \<and> length (written st') + length (rx st') \<le> length (written st1) + length (rx st1) + 2"
        by simp
      with w alt Continue show ?thesis
        by auto
    qed
  qed
qed

text \<open>
  Claim C4, as the code has it. \<open>negotiateHandshake\<close> is a total function: the loop ends on
  every finite sequence of replies, because a pass that is followed by another has consumed
  two bytes. The number of passes (of CLIENT_BEGIN frames written) is at most one more than
  half the number of reply bytes, and it has no fixed bound: after any sequence of
  counter-offers with the digits 2 to 5, in any order and of any length, the driver has
  sent CLIENT_BEGIN for version 6 and then for each offered version in turn. When the next
  reply is 'N' the version offered last is the negotiated one; when it is an 'M' with any
  other byte the driver throws UnsupportedVersion.
\<close>

theorem negotiateHandshake_bounded_by_replies:
  "length (frames_of (sent_by st (snd (negotiateHandshake st)))) \<le> Suc (length (rx st) div 2)
   \<and> (set offers \<subseteq> {CHR ''2'', CHR ''3'', CHR ''4'', CHR ''5''}
        \<and> rx st = concat (map (\<lambda>d. [CHR ''M'', d]) offers) @ CHR ''N'' # rest \<longrightarrow>
      (\<exists>st'. negotiateHandshake st = (Inr True, st') \<and> rx st' = rest
         \<and> hsVersion st' = Some (last (CP_VERSION_6 # map offer_version offers))
         \<and> written st' = written st @ sent_by st st'
         \<and> frames_of (sent_by st st')
             = map client_begin_frame (CP_VERSION_6 # map offer_version offers)))
   \<and> (set offers \<subseteq> {CHR ''2'', CHR ''3'', CHR ''4'', CHR ''5''}
        \<and> d \<notin> {CHR ''2'', CHR ''3'', CHR ''4'', CHR ''5''}
        \<and> rx st = concat (map (\<lambda>d. [CHR ''M'', d]) offers) @ CHR ''M'' # d # rest \<longrightarrow>
      (\<exists>st'. negotiateHandshake st = (Inl (UnsupportedVersion (toString_utf8 [d])), st')
         \<and> rx st' = rest \<and> hsVersion st' = hsVersion st
         \<and> written st' = written st @ sent_by st st'
         \<and> frames_of (sent_by st st')
             = map client_begin_frame (CP_VERSION_6 # map offer_version offers)))"
proof (intro conjI impI; (elim conjE)?)
  obtain r st' where a: "negotiateHandshake_loop CP_VERSION_6 st = (r, st')"
    by (cases "negotiateHandshake_loop CP_VERSION_6 st")
  from negotiateHandshake_loop_bound [OF a]
  have "length (sent_by st st') \<le> length (rx st) + 2"
    unfolding sent_by_def length_drop by linarith
  then have "length (frames_of (sent_by st st')) \<le> Suc (length (rx st) div 2)"
    unfolding frames_of_length by simp
  with a show "length (frames_of (sent_by st (snd (negotiateHandshake st))))
      \<le> Suc (length (rx st) div 2)"
    by (simp add: negotiateHandshake_def)
next
  define versions where "versions = CP_VERSION_6 # map offer_version offers"
  assume o: "set offers \<subseteq> {CHR ''2'', CHR ''3'', CHR ''4'', CHR ''5''}"
    and rx: "rx st = concat (map (\<lambda>d. [CHR ''M'', d]) offers) @ CHR ''N'' # rest"
  have v: "last versions \<in> {2, 3, 4, 5, 6}"
    unfolding versions_def using o by (rule last_offer_range) simp
  from negotiateHandshake_loop_offers [OF o _ rx, of CP_VERSION_6] obtain st1 where
    l: "negotiateHandshake_loop CP_VERSION_6 st = negotiateHandshake_loop (last versions) st1"
      "rx st1 = CHR ''N'' # rest" "hsVersion st1 = hsVersion st"
      "written st1 = written st @ concat (map client_begin_writes (butlast versions))"
    unfolding versions_def by auto
  from negotiateStep_accept [OF l(2) v] obtain st' where
    s: "negotiateStep (last versions) st1 = (Inr (Return True), st')" "rx st' = rest"
      "written st' = written st1 @ client_begin_writes (last versions)"
      "hsVersion st' = Some (last versions)"
    by blast
  have "negotiateHandshake_loop (last versions) st1 = (Inr True, st')"
    by (subst negotiateHandshake_loop.simps) (simp add: andThen_def s(1) ret_def lift_def)
  with l(1) have r: "negotiateHandshake st = (Inr True, st')"
    by (simp add: negotiateHandshake_def)
  have "concat (map client_begin_writes (butlast versions)) @ client_begin_writes (last versions)
      = concat (map client_begin_writes (butlast versions @ [last versions]))"
    by simp
  also have "\<dots> = concat (map client_begin_writes versions)"
    unfolding versions_def by (subst append_butlast_last_id) simp_all
  finally have w: "written st' = written st @ concat (map client_begin_writes versions)"
    using l(4) s(3) by simp
  then have "sent_by st st' = concat (map client_begin_writes versions)"
    by (rule sent_by_append)
  then have "written st' = written st @ sent_by st st'"
    "frames_of (sent_by st st') = map client_begin_frame versions"
    using w by (simp_all only: frames_of_client_begin)
  with r s(2,4) show "\<exists>st'. negotiateHandshake st = (Inr True, st') \<and> rx st' = rest
         \<and> hsVersion st' = Some (last (CP_VERSION_6 # map offer_version offers))
         \<and> written st' = written st @ sent_by st st'
         \<and> frames_of (sent_by st st')
             = map client_begin_frame (CP_VERSION_6 # map offer_version offers)"
    unfolding versions_def by (intro exI [of _ st']) simp
next
  define versions where "versions = CP_VERSION_6 # map offer_version offers"
  assume o: "set offers \<subseteq> {CHR ''2'', CHR ''3'', CHR ''4'', CHR ''5''}"
    and d: "d \<notin> {CHR ''2'', CHR ''3'', CHR ''4'', CHR ''5''}"
    and rx: "rx st = concat (map (\<lambda>d. [CHR ''M'', d]) offers) @ CHR ''M'' # d # rest"
  have v: "last versions \<in> {2, 3, 4, 5, 6}"
    unfolding versions_def using o by (rule last_offer_range) simp
  from negotiateHandshake_loop_offers [OF o _ rx, of CP_VERSION_6] obtain st1 where
    l: "negotiateHandshake_loop CP_VERSION_6 st = negotiateHandshake_loop (last versions) st1"
      "rx st1 = CHR ''M'' # d # rest" "hsVersion st1 = hsVersion st"
      "written st1 = written st @ concat (map client_begin_writes (butlast versions))"
    unfolding versions_def by auto
  from negotiateStep_counter_offer [OF l(2) v] obtain st' where
    s0: "negotiateStep (last versions) st1 =
       (if d \<in> {CHR ''2'', CHR ''3'', CHR ''4'', CHR ''5''} then Inr (Continue (offer_version d))
        else Inl (UnsupportedVersion (toString_utf8 [d])), st')" and
    s: "rx st' = rest" "written st' = written st1 @ client_begin_writes (last versions)"
      "hsVersion st' = hsVersion st1"
    by blast
  from s0 d have s1:
    "negotiateStep (last versions) st1 = (Inl (UnsupportedVersion (toString_utf8 [d])), st')"
    by simp
  have "negotiateHandshake_loop (last versions) st1
      = (Inl (UnsupportedVersion (toString_utf8 [d])), st')"
    by (subst negotiateHandshake_loop.simps) (simp add: andThen_def s1)
  with l(1) have r: "negotiateHandshake st = (Inl (UnsupportedVersion (toString_utf8 [d])), st')"
    by (simp add: negotiateHandshake_def)
  have "concat (map client_begin_writes (butlast versions)) @ client_begin_writes (last versions)
      = concat (map client_begin_writes (butlast versions @ [last versions]))"
    by simp
  also have "\<dots> = concat (map client_begin_writes versions)"
    unfolding versions_def by (subst append_butlast_last_id) simp_all
  finally have w: "written st' = written st @ concat (map client_begin_writes versions)"
    using l(4) s(2) by simp
  then have "sent_by st st' = concat (map client_begin_writes versions)"
    by (rule sent_by_append)
  then have "written st' = written st @ sent_by st st'"
    "frames_of (sent_by st st') = map client_begin_frame versions"
    using w by (simp_all only: frames_of_client_begin)
  with r s(1,3) l(3)
  show "\<exists>st'. negotiateHandshake st = (Inl (UnsupportedVersion (toString_utf8 [d])), st')
         \<and> rx st' = rest \<and> hsVersion st' = hsVersion st
         \<and> written st' = written st @ sent_by st st'
         \<and> frames_of (sent_by st st')
             = map client_begin_frame (CP_VERSION_6 # map offer_version offers)"
    unfolding versions_def by (intro exI [of _ st']) simp
qed

text \<open>
  Two runs: the counter-offers 2 and then 5 followed by 'N' negotiate version 5, and a
  counter-offer of 6 after one of 3 is refused.
\<close>

theorem negotiateHandshake_bounded_by_replies_witness:
  "set ''25'' \<subseteq> {CHR ''2'', CHR ''3'', CHR ''4'', CHR ''5''}
   \<and> rx (new_driver [''M2'', ''M5'', ''N'']) = concat (map (\<lambda>d. [CHR ''M'', d]) ''25'') @ CHR ''N'' # []
   \<and> fst (negotiateHandshake (new_driver [''M2'', ''M5'', ''N''])) = Inr True
   \<and> hsVersion (snd (negotiateHandshake (new_driver [''M2'', ''M5'', ''N'']))) = Some 5
   \<and> frames_of (written (snd (negotiateHandshake (new_driver [''M2'', ''M5'', ''N'']))))
       = [client_begin_frame 6, client_begin_frame 2, client_begin_frame 5]
   \<and> set ''3'' \<subseteq> {CHR ''2'', CHR ''3'', CHR ''4'', CHR ''5''}
   \<and> CHR ''6'' \<notin> {CHR ''2'', CHR ''3'', CHR ''4'', CHR ''5''}
   \<and> rx (new_driver [''M3M6'']) = concat (map (\<lambda>d. [CHR ''M'', d]) ''3'') @ CHR ''M'' # CHR ''6'' # []
   \<and> fst (negotiateHandshake (new_driver [''M3M6''])) = Inl (UnsupportedVersion (map of_char ''6''))
   \<and> frames_of (written (snd (negotiateHandshake (new_driver [''M3M6'']))))
       = [client_begin_frame 6, client_begin_frame 3]
   \<and> length (frames_of (sent_by (new_driver [''M3M6'']) (snd (negotiateHandshake (new_driver [''M3M6''])))))
       \<le> Suc (length (rx (new_driver [''M3M6''])) div 2)"
proof -
  have h1: "set ''25'' \<subseteq> {CHR ''2'', CHR ''3'', CHR ''4'', CHR ''5''}"
    "rx (new_driver [''M2'', ''M5'', ''N''])
       = concat (map (\<lambda>d. [CHR ''M'', d]) ''25'') @ CHR ''N'' # []"
    by (simp_all add: rx_def new_driver_def)
  have h2: "set ''3'' \<subseteq> {CHR ''2'', CHR ''3'', CHR ''4'', CHR ''5''}"
    "CHR ''6'' \<notin> {CHR ''2'', CHR ''3'', CHR ''4'', CHR ''5''}"
    "rx (new_driver [''M3M6''])
       = concat (map (\<lambda>d. [CHR ''M'', d]) ''3'') @ CHR ''M'' # CHR ''6'' # []"
    by (simp_all add: rx_def new_driver_def)
  have w: "written (new_driver chunks) = []" for chunks
    by (simp add: new_driver_def)
  have u: "toString_utf8 ''6'' = map of_char ''6''"
    by (simp add: toString_utf8_def utf16_units_def)
  from negotiateHandshake_bounded_by_replies
         [of "new_driver [''M2'', ''M5'', ''N'']" "''25''" "[]"] h1
  have 1: "fst (negotiateHandshake (new_driver [''M2'', ''M5'', ''N''])) = Inr True
      \<and> hsVersion (snd (negotiateHandshake (new_driver [''M2'', ''M5'', ''N'']))) = Some 5
      \<and> frames_of (written (snd (negotiateHandshake (new_driver [''M2'', ''M5'', ''N'']))))
          = [client_begin_frame 6, client_begin_frame 2, client_begin_frame 5]"
    by (auto simp: w offer_version_def)
  from negotiateHandshake_bounded_by_replies
         [of "new_driver [''M3M6'']" "''3''" "[]" "CHR ''6''"] h2
  have 2: "fst (negotiateHandshake (new_driver [''M3M6''])) = Inl (UnsupportedVersion (map of_char ''6''))
      \<and> frames_of (written (snd (negotiateHandshake (new_driver [''M3M6'']))))
          = [client_begin_frame 6, client_begin_frame 3]
      \<and> length (frames_of (sent_by (new_driver [''M3M6''])
                  (snd (negotiateHandshake (new_driver [''M3M6''])))))
          \<le> Suc (length (rx (new_driver [''M3M6''])) div 2)"
    by (auto simp: w u offer_version_def)
  from h1 h2 1 2 show ?thesis
    by blast
qed

text \<open>
  The claim as the specification states it fails: seven counter-offers of version 5 are
  followed by an eighth pass, and a counter-offer of 5 after one of 2 raises the version.
\<close>

theorem negotiateHandshake_iterations_counterexample:
  "fst (negotiateHandshake (new_driver [''M5M5M5M5M5M5M5N''])) = Inr True
   \<and> length (frames_of (written (snd (negotiateHandshake (new_driver [''M5M5M5M5M5M5M5N''])))))
       = 8
   \<and> hsVersion (snd (negotiateHandshake (new_driver [''M2'', ''M5'', ''N'']))) = Some 5"
  by code_simp

section \<open>The metadata stream\<close>

text \<open>
  The steps \<open>sendSteps\<close> puts on the wire when every acknowledgment is 'N': a step without
  data is skipped unless it is CLIENT_DONE, and CLIENT_DONE ends the loop.
\<close>

fun steps_sent :: "step list \<Rightarrow> step list" where
  "steps_sent [] = []"
| "steps_sent ((opcode, data) # steps) =
     (if data = None \<and> opcode \<noteq> HSV2_CLIENT_DONE then steps_sent steps
      else if opcode = HSV2_CLIENT_DONE then [(opcode, data)]
      else (opcode, data) # steps_sent steps)"

text \<open>The bytes of a step's frame.\<close>

definition step_frame :: "step \<Rightarrow> string \<Rightarrow> bool" where
  "step_frame step frame \<longleftrightarrow>
     (\<exists>len op. packShort (fst step) = Inr op
        \<and> packInt (int (length (op @ (case snd step of None \<Rightarrow> [] | Some d \<Rightarrow> d))) + 4) = Inr len
        \<and> frame = len @ op @ (case snd step of None \<Rightarrow> [] | Some d \<Rightarrow> d))"

lemma step_frame_opcode: "step_frame step frame \<Longrightarrow> frame_opcode frame = Inr (fst step)"
  by (auto simp: step_frame_def intro: frame_opcode_packShort)

lemma sendSteps_Inr:
  assumes "sendSteps steps st = (Inr True, st')"
  shows "written st' = written st @ sent_by st st'
         \<and> length (sent_by st st') = 2 * length (steps_sent steps)
         \<and> list_all2 step_frame (steps_sent steps) (frames_of (sent_by st st'))
         \<and> rx st = replicate (length (filter (\<lambda>s. fst s \<noteq> HSV2_CLIENT_DONE) (steps_sent steps)))
                      (CHR ''N'') @ rx st'"
  using assms
proof (induction steps arbitrary: st)
  case Nil
  then show ?case
    by (simp add: sent_by_def)
next
  case (Cons step steps)
  obtain opcode data where step: "step = (opcode, data)"
    by (cases step)
  show ?case
  proof (cases "data = None \<and> opcode \<noteq> HSV2_CLIENT_DONE")
    case True
    with Cons.prems step have "sendSteps steps st = (Inr True, st')"
      by simp
    from Cons.IH [OF this] True step show ?thesis
      by simp
  next
    case False
    define payload where "payload op = (case data of Some d \<Rightarrow> op @ d | None \<Rightarrow> op)" for op :: string
    from False Cons.prems step obtain op u st1 where
      p: "packShort opcode = Inr op" and
      w: "writeFrame (payload op) st = (Inr u, st1)" and
      rest: "(if opcode = HSV2_CLIENT_DONE then ret True
              else andThen (readBytes 1) (\<lambda>response.
                     if response \<noteq> ''N''
                     then (if response ! 0 = ERROR_RESPONSE then throw MetadataRejected
                           else ret False)
                     else sendSteps steps)) st1 = (Inr True, st')"
      by (auto simp: andThen_Inr payload_def)
    from w obtain len where
      l: "packInt (int (length (payload op)) + 4) = Inr len" and
      w1: "written st1 = written st @ [len, payload op]" "rx st1 = rx st"
      by (auto simp: writeFrame_Inr)
    have pl: "payload op = op @ (case data of None \<Rightarrow> [] | Some d \<Rightarrow> d)"
      by (simp add: payload_def split: option.splits)
    have f: "step_frame (opcode, data) (len @ payload op)"
      unfolding step_frame_def using p l by (auto simp: pl)
    show ?thesis
    proof (cases "opcode = HSV2_CLIENT_DONE")
      case True
      with rest have "st' = st1"
        by simp
      with w1 have s: "sent_by st st' = [len, payload op]" "rx st = rx st'"
        "written st' = written st @ [len, payload op]"
        by (simp_all add: sent_by_append)
      show ?thesis
        unfolding s(1) using s(2,3) f True False step by simp
    next
      case n: False
      with rest obtain response st2 where
        r: "readBytes 1 st1 = (Inr response, st2)" and
        c: "(if response \<noteq> ''N''
             then (if response ! 0 = ERROR_RESPONSE then throw MetadataRejected else ret False)
             else sendSteps steps) st2 = (Inr True, st')"
        by (auto simp: andThen_Inr)
      from c have ack: "response = ''N''" and tl: "sendSteps steps st2 = (Inr True, st')"
        by (auto simp: if_io_eq)
      from readBytes_InrD [OF r] ack w1 have r2: "rx st = CHR ''N'' # rx st2"
        "written st2 = written st @ [len, payload op]"
        by simp_all
      note ih = Cons.IH [OF tl]
      from r2(2) ih have s: "sent_by st st' = len # payload op # sent_by st2 st'"
        by (intro sent_by_append) simp
      have "written st' = written st @ sent_by st st'"
        using r2(2) ih unfolding s by simp
      moreover have "length (sent_by st st') = 2 * length (steps_sent (step # steps))"
        using ih n False unfolding s step by auto
      moreover have "list_all2 step_frame (steps_sent (step # steps)) (frames_of (sent_by st st'))"
        using ih n False f unfolding s step by auto
      moreover have "rx st = replicate (length (filter (\<lambda>s. fst s \<noteq> HSV2_CLIENT_DONE)
                        (steps_sent (step # steps)))) (CHR ''N'') @ rx st'"
        using ih n False r2(1) unfolding step by auto
      ultimately show ?thesis
        by blast
    qed
  qed
qed

lemma step_frames_opcodes:
  "list_all2 step_frame steps frames \<Longrightarrow>
     map frame_opcode frames = map (\<lambda>step. Inr (fst step)) steps"
  by (induction rule: list_all2_induct) (simp_all add: step_frame_opcode)

lemma tailSteps_Inr:
  assumes "tailSteps st = (Inr tail, st')"
  shows "st' = st \<and> (\<exists>enabled.
           tail = (if hsVersion st = Some CP_VERSION_5 \<or> hsVersion st = Some CP_VERSION_6
                   then [(HSV2_64BIT_VARLENA_ENABLED, Some enabled)] else [])
                  @ [(HSV2_CLIENT_DONE, None)])"
  using assms unfolding tailSteps_def
  by (auto simp: andThen_Inr if_io_eq)

lemma stepsVersion2_Inr:
  assumes "stepsVersion2 user pgOptions st = (Inr steps, st')"
  shows "st' = st \<and> (\<exists>protocol remotePid clientType tail.
           tailSteps st = (Inr tail, st)
           \<and> steps = [(HSV2_USER, Some (user @ NULL_BYTE)),
                      (HSV2_PROTOCOL, Some protocol),
                      (HSV2_REMOTE_PID, Some remotePid),
                      (HSV2_OPTIONS, optionsData pgOptions),
                      (HSV2_CLIENT_TYPE, Some clientType)] @ tail)"
proof -
  have p: "protocolData st = (Inr x, s) \<Longrightarrow> s = st" for x s
    by (auto simp: protocolData_def andThen_Inr)
  from assms show ?thesis
    unfolding stepsVersion2_def
    by (auto simp: andThen_Inr dest!: p dest: tailSteps_Inr)
qed

lemma stepsVersion4_Inr:
  assumes "stepsVersion4 user pgOptions st = (Inr steps, st')"
  shows "st' = st \<and> (\<exists>app os host osUser protocol remotePid clientType tail.
           tailSteps st = (Inr tail, st)
           \<and> steps = [(HSV2_USER, Some (user @ NULL_BYTE)),
                      (HSV2_APPNAME, Some app),
                      (HSV2_CLIENT_OS, Some os),
                      (HSV2_CLIENT_HOST_NAME, Some host),
                      (HSV2_CLIENT_OS_USER, Some osUser),
                      (HSV2_PROTOCOL, Some protocol),
                      (HSV2_REMOTE_PID, Some remotePid),
                      (HSV2_OPTIONS, optionsData pgOptions),
                      (HSV2_CLIENT_TYPE, Some clientType)] @ tail)"
proof -
  have p: "protocolData st = (Inr x, s) \<Longrightarrow> s = st" for x s
    by (auto simp: protocolData_def andThen_Inr)
  from assms show ?thesis
    unfolding stepsVersion4_def
    by (auto simp: andThen_Inr dest!: p dest: tailSteps_Inr)
qed

text \<open>
  The metadata sequence in the words of the specification: the long form for versions 4 and
  6, the short form for 2, 3 and 5, OPTIONS left out when \<open>pgOptions\<close> is empty,
  VARLENA64_ENABLED added for 5 and 6, CLIENT_DONE last.
\<close>

definition metadata_opcodes :: "int \<Rightarrow> string \<Rightarrow> int list" where
  "metadata_opcodes v pgOptions =
     (if v \<in> {4, 6}
      then [HSV2_USER, HSV2_APPNAME, HSV2_CLIENT_OS, HSV2_CLIENT_HOST_NAME, HSV2_CLIENT_OS_USER,
            HSV2_PROTOCOL, HSV2_REMOTE_PID]
      else [HSV2_USER, HSV2_PROTOCOL, HSV2_REMOTE_PID])
     @ (if pgOptions = [] then [] else [HSV2_OPTIONS])
     @ [HSV2_CLIENT_TYPE]
     @ (if v \<in> {5, 6} then [HSV2_64BIT_VARLENA_ENABLED] else [])
     @ [HSV2_CLIENT_DONE]"

lemma sendHandshakeByVersion_steps:
  assumes "hsVersion st = Some v" "v \<in> {2, 3, 4, 5, 6}"
    and "sendHandshakeByVersion user pgOptions st = (Inr True, st')"
  shows "\<exists>steps. sendSteps steps st = (Inr True, st')
           \<and> map fst (steps_sent steps) = metadata_opcodes v pgOptions
           \<and> last (steps_sent steps) = (HSV2_CLIENT_DONE, None)"
proof (cases "v \<in> {4, 6}")
  case True
  with assms obtain steps st1 where
    b: "stepsVersion4 user pgOptions st = (Inr steps, st1)" "sendSteps steps st1 = (Inr True, st')"
    unfolding sendHandshakeByVersion_def sendHandshakeVersion4_def
    by (auto simp: andThen_Inr)
  from stepsVersion4_Inr [OF b(1)] have "st1 = st"
    by simp
  with b have
    a: "stepsVersion4 user pgOptions st = (Inr steps, st)" "sendSteps steps st = (Inr True, st')"
    by simp_all
  from stepsVersion4_Inr [OF a(1)] assms(1) True
  have "map fst (steps_sent steps) = metadata_opcodes v pgOptions
        \<and> last (steps_sent steps) = (HSV2_CLIENT_DONE, None)"
    by (auto simp: metadata_opcodes_def optionsData_def dest!: tailSteps_Inr)
  with a(2) show ?thesis
    by blast
next
  case False
  with assms obtain steps st1 where
    b: "stepsVersion2 user pgOptions st = (Inr steps, st1)" "sendSteps steps st1 = (Inr True, st')"
    unfolding sendHandshakeByVersion_def sendHandshakeVersion2_def
    by (auto simp: andThen_Inr)
  from stepsVersion2_Inr [OF b(1)] have "st1 = st"
    by simp
  with b have
    a: "stepsVersion2 user pgOptions st = (Inr steps, st)" "sendSteps steps st = (Inr True, st')"
    by simp_all
  from stepsVersion2_Inr [OF a(1)] assms(1,2) False
  have "map fst (steps_sent steps) = metadata_opcodes v pgOptions
        \<and> last (steps_sent steps) = (HSV2_CLIENT_DONE, None)"
    by (auto simp: metadata_opcodes_def optionsData_def dest!: tailSteps_Inr)
  with a(2) show ?thesis
    by blast
qed

lemma list_all2_last:
  "list_all2 P xs ys \<Longrightarrow> xs \<noteq> [] \<Longrightarrow> P (last xs) (last ys)"
  by (induction rule: list_all2_induct) auto

lemma packShort_CLIENT_DONE: "packShort HSV2_CLIENT_DONE = Inr [CHR 0x03, CHR 0xE8]"
  by (simp add: packShort_def writeInt16BE_def char_of_def)

lemma step_frame_CLIENT_DONE:
  "step_frame (HSV2_CLIENT_DONE, None) frame \<longleftrightarrow>
     frame = [CHR 0x00, CHR 0x00, CHR 0x00, CHR 0x06, CHR 0x03, CHR 0xE8]"
  by (auto simp: step_frame_def packShort_CLIENT_DONE)

lemma sendHandshakeByVersion_Inr:
  assumes "hsVersion st = Some v" "v \<in> {2, 3, 4, 5, 6}"
    and "sendHandshakeByVersion user pgOptions st = (Inr True, st')"
  shows "written st' = written st @ sent_by st st'
         \<and> map frame_opcode (frames_of (sent_by st st')) = map Inr (metadata_opcodes v pgOptions)
         \<and> last (frames_of (sent_by st st'))
             = [CHR 0x00, CHR 0x00, CHR 0x00, CHR 0x06, CHR 0x03, CHR 0xE8]
         \<and> rx st = replicate (length (metadata_opcodes v pgOptions) - 1) (CHR ''N'') @ rx st'"
proof -
  from sendHandshakeByVersion_steps [OF assms] obtain steps where
    s: "sendSteps steps st = (Inr True, st')" and
    m: "map fst (steps_sent steps) = metadata_opcodes v pgOptions" and
    l: "last (steps_sent steps) = (HSV2_CLIENT_DONE, None)"
    by blast
  note a = sendSteps_Inr [OF s]
  from a have f: "list_all2 step_frame (steps_sent steps) (frames_of (sent_by st st'))"
    by simp
  have ne: "steps_sent steps \<noteq> []"
    using m by (auto simp: metadata_opcodes_def)
  have "map frame_opcode (frames_of (sent_by st st')) = map Inr (metadata_opcodes v pgOptions)"
    unfolding step_frames_opcodes [OF f] m [symmetric] by (simp add: comp_def)
  moreover have "last (frames_of (sent_by st st'))
      = [CHR 0x00, CHR 0x00, CHR 0x00, CHR 0x06, CHR 0x03, CHR 0xE8]"
    using list_all2_last [OF f ne] l by (simp add: step_frame_CLIENT_DONE)
  moreover have "length (filter (\<lambda>s. fst s \<noteq> HSV2_CLIENT_DONE) (steps_sent steps))
      = length (filter (\<lambda>op. op \<noteq> HSV2_CLIENT_DONE) (metadata_opcodes v pgOptions))"
    unfolding m [symmetric] by (simp add: filter_map comp_def)
  moreover have "length (filter (\<lambda>op. op \<noteq> HSV2_CLIENT_DONE) (metadata_opcodes v pgOptions))
      = length (metadata_opcodes v pgOptions) - 1"
    by (simp add: metadata_opcodes_def)
  ultimately show ?thesis
    using a by simp
qed




section \<open>CLIENT_BEGIN and CLIENT_DONE\<close>

lemma sendDatabase_Inr:
  assumes "sendDatabase database st = (Inr True, st')"
  shows "written st' = written st @ sent_by st st' \<and> even (length (sent_by st st'))
         \<and> map frame_opcode (frames_of (sent_by st st'))
             = (if database = [] then [] else [Inr HSV2_DB])"
proof (cases "database = []")
  case True
  with assms show ?thesis
    by (simp add: sendDatabase_def sent_by_def)
next
  case False
  with assms obtain u st1 response where
    w: "writeFrame ([CHR 0x00, CHR 0x02] @ database @ NULL_BYTE) st = (Inr u, st1)" and
    r: "readBytes 1 st1 = (Inr response, st')"
    unfolding sendDatabase_def
    by (auto simp: andThen_Inr if_io_eq)
  from w obtain len where
    l: "packInt (int (length ([CHR 0x00, CHR 0x02] @ database @ NULL_BYTE)) + 4) = Inr len" and
    w1: "written st1 = written st @ [len, [CHR 0x00, CHR 0x02] @ database @ NULL_BYTE]"
    by (auto simp: writeFrame_Inr)
  from readBytes_InrD [OF r] w1
  have s: "sent_by st st' = [len, [CHR 0x00, CHR 0x02] @ database @ NULL_BYTE]"
    by (intro sent_by_append) simp
  have "frame_opcode (len @ [CHR 0x00, CHR 0x02] @ database @ NULL_BYTE) = Inr HSV2_DB"
    using l by (intro frame_opcode_packShort) simp_all
  with False readBytes_InrD [OF r] w1 show ?thesis
    unfolding s by simp
qed

lemma upgradeToTLS_written: "upgradeToTLS st = (r, st') \<Longrightarrow> written st' = written st"
  by (drule upgradeToTLS_fields) simp

lemma secureSession_Inr:
  assumes "secureSession securityLevel st = (Inr True, st')"
  shows "written st' = written st @ sent_by st st' \<and> even (length (sent_by st st'))
         \<and> map frame_opcode (frames_of (sent_by st st'))
             \<in> {[Inr HSV2_SSL_NEGOTIATE], [Inr HSV2_SSL_NEGOTIATE, Inr HSV2_SSL_CONNECT]}"
proof -
  from assms obtain level u st1 response st2 where
    p: "packInt securityLevel = Inr level" and
    w: "writeFrame ([CHR 0x00, CHR 0x0B] @ level) st = (Inr u, st1)" and
    r: "readBytes 1 st1 = (Inr response, st2)" and
    c: "(if response ! 0 = CHR ''N'' then ret True
         else if response ! 0 = CHR ''S''
         then andThen (lift (packShort HSV2_SSL_CONNECT)) (\<lambda>connectOpcode.
              andThen (lift (packInt securityLevel)) (\<lambda>connectLevel.
              andThen (writeFrame (connectOpcode @ connectLevel)) (\<lambda>_.
              andThen upgradeToTLS (\<lambda>_.
              ret True))))
         else if response ! 0 = CHR ''E'' then throw TlsRejected
         else throw (UnknownSslResponse (response ! 0))) st2 = (Inr True, st')"
    unfolding secureSession_def Let_def
    by (auto simp: andThen_Inr)
  from w obtain len where
    l: "packInt (int (length ([CHR 0x00, CHR 0x0B] @ level)) + 4) = Inr len" and
    w1: "written st1 = written st @ [len, [CHR 0x00, CHR 0x0B] @ level]"
    by (auto simp: writeFrame_Inr)
  have o1: "frame_opcode (len @ [CHR 0x00, CHR 0x0B] @ level) = Inr HSV2_SSL_NEGOTIATE"
    using l by (intro frame_opcode_packShort) simp_all
  from readBytes_InrD [OF r] w1 have w2: "written st2 = written st @ [len, [CHR 0x00, CHR 0x0B] @ level]"
    by simp
  show ?thesis
  proof (cases "response ! 0 = CHR ''N''")
    case True
    with c have "st' = st2"
      by simp
    with w2 have s: "sent_by st st' = [len, [CHR 0x00, CHR 0x0B] @ level]"
      by (intro sent_by_append) simp
    from w2 \<open>st' = st2\<close> o1 show ?thesis
      unfolding s by simp
  next
    case False
    with c obtain u2 st3 u3 where
      w3: "writeFrame ([CHR 0x00, CHR 0x0C] @ level) st2 = (Inr u2, st3)" and
      t: "upgradeToTLS st3 = (Inr u3, st')"
      using p by (auto simp: andThen_Inr if_io_eq)
    from w3 obtain len2 where
      l2: "packInt (int (length ([CHR 0x00, CHR 0x0C] @ level)) + 4) = Inr len2" and
      w4: "written st3 = written st2 @ [len2, [CHR 0x00, CHR 0x0C] @ level]"
      by (auto simp: writeFrame_Inr)
    have o2: "frame_opcode (len2 @ [CHR 0x00, CHR 0x0C] @ level) = Inr HSV2_SSL_CONNECT"
      using l2 by (intro frame_opcode_packShort) simp_all
    from upgradeToTLS_written [OF t] w4 w2
    have w5: "written st' = written st @ [len, [CHR 0x00, CHR 0x0B] @ level,
                                         len2, [CHR 0x00, CHR 0x0C] @ level]"
      by simp
    then have s: "sent_by st st' = [len, [CHR 0x00, CHR 0x0B] @ level,
                                   len2, [CHR 0x00, CHR 0x0C] @ level]"
      by (rule sent_by_append)
    from w5 o1 o2 show ?thesis
      unfolding s by simp
  qed
qed

lemma negotiated_version:
  assumes "set offers \<subseteq> {CHR ''2'', CHR ''3'', CHR ''4'', CHR ''5''}"
  shows "last (CP_VERSION_6 # map offer_version offers) \<in> {2, 3, 4, 5, 6}"
proof (cases "offers = []")
  case True
  then show ?thesis by simp
next
  case False
  then have "last offers \<in> set offers"
    by simp
  with assms have "offer_version (last offers) \<in> {2, 3, 4, 5}"
    by (auto simp: offer_version_def)
  with False show ?thesis
    by (auto simp: last_map)
qed

lemma sendHandshakeInfo_opcodes:
  assumes "sendHandshakeInfo database securityLevel user pgOptions st = (Inr True, st')"
    and "hsVersion st = Some v" "v \<in> {2, 3, 4, 5, 6}"
  shows "\<exists>before. set before \<subseteq> {Inr HSV2_DB, Inr HSV2_SSL_NEGOTIATE, Inr HSV2_SSL_CONNECT}
           \<and> map frame_opcode (frames_of (sent_by st st'))
               = before @ map Inr (metadata_opcodes v pgOptions)"
proof -
  from assms(1) obtain st1 st2 st3 where
    a: "sendDatabase database st = (Inr True, st1)" and
    b: "setNextDataProtocol st1 = (Inr True, st2)" and
    c: "secureSession securityLevel st2 = (Inr True, st3)" and
    d: "sendHandshakeByVersion user pgOptions st3 = (Inr True, st')"
    unfolding sendHandshakeInfo_Inr by blast
  from b have b': "written st2 = written st1" "hsVersion st2 = hsVersion st1"
    by (auto simp: setNextDataProtocol_def split: if_splits)
  from keeps_sendDatabase [OF a] keeps_secureSession [OF c] b'(2) assms(2)
  have v: "hsVersion st3 = Some v"
    by (simp add: keeps_negotiated_def)
  note A = sendDatabase_Inr [OF a]
  note C = secureSession_Inr [OF c]
  note D = sendHandshakeByVersion_Inr [OF v assms(3) d]
  define wa where "wa = sent_by st st1"
  define wc where "wc = sent_by st2 st3"
  define wd where "wd = sent_by st3 st'"
  have "written st' = written st @ (wa @ wc @ wd)"
    using A C D b'(1) by (simp add: wa_def wc_def wd_def)
  then have s: "sent_by st st' = wa @ wc @ wd"
    by (rule sent_by_append)
  have e: "even (length wa)" "even (length wc)"
    using A C by (simp_all add: wa_def wc_def)
  have f: "frames_of (wa @ wc @ wd) = frames_of wa @ frames_of wc @ frames_of wd"
    using e by (simp add: frames_of_append)
  define before where "before = map frame_opcode (frames_of wa) @ map frame_opcode (frames_of wc)"
  have "set before \<subseteq> {Inr HSV2_DB, Inr HSV2_SSL_NEGOTIATE, Inr HSV2_SSL_CONNECT}"
    using A C unfolding before_def wa_def wc_def by (auto split: if_splits)
  moreover have "map frame_opcode (frames_of (sent_by st st'))
      = before @ map Inr (metadata_opcodes v pgOptions)"
    unfolding s f before_def using D by (simp add: wd_def)
  ultimately show ?thesis
    by blast
qed

lemma metadata_opcodes_CLIENT_DONE:
  "count_list (metadata_opcodes v pgOptions) HSV2_CLIENT_DONE = 1"
  "count_list (metadata_opcodes v pgOptions) HSV2_CLIENT_BEGIN = 0"
  "last (metadata_opcodes v pgOptions) = HSV2_CLIENT_DONE"
  "metadata_opcodes v pgOptions \<noteq> []"
  by (simp_all add: metadata_opcodes_def)

lemma count_list_map_Inr: "count_list (map Inr xs) (Inr x) = count_list xs x"
  by (induction xs) auto

text \<open>
  Claim C3, as the code has it. In a run whose phases 1 and 2 succeed, the server's replies
  to phase 1 are some counter-offers followed by 'N', and phase 1 has written one
  CLIENT_BEGIN frame for the first offer and one for each counter-offer, and nothing else.
  Phase 2 has written exactly one CLIENT_DONE frame, as its last frame, and no CLIENT_BEGIN.
\<close>

theorem client_begin_per_offer_client_done_once:
  assumes "negotiateHandshake st = (Inr True, st1)"
    and "sendHandshakeInfo database securityLevel user pgOptions st1 = (Inr True, st2)"
  shows "\<exists>offers.
           rx st = concat (map (\<lambda>d. [CHR ''M'', d]) offers) @ ''N'' @ rx st1
           \<and> map frame_opcode (frames_of (sent_by st st1))
               = replicate (Suc (length offers)) (Inr HSV2_CLIENT_BEGIN)
           \<and> count_list (map frame_opcode (frames_of (sent_by st1 st2))) (Inr HSV2_CLIENT_DONE) = 1
           \<and> last (map frame_opcode (frames_of (sent_by st1 st2))) = Inr HSV2_CLIENT_DONE
           \<and> count_list (map frame_opcode (frames_of (sent_by st1 st2))) (Inr HSV2_CLIENT_BEGIN) = 0"
proof -
  from negotiateHandshake_loop_Inr [of CP_VERSION_6 st True st1] assms(1) obtain offers where
    n: "rx st = concat (map (\<lambda>d. [CHR ''M'', d]) offers) @ ''N'' @ rx st1"
      "set offers \<subseteq> {CHR ''2'', CHR ''3'', CHR ''4'', CHR ''5''}"
      "hsVersion st1 = Some (last (CP_VERSION_6 # map offer_version offers))"
      "map frame_opcode (frames_of (sent_by st st1))
         = replicate (Suc (length offers)) (Inr HSV2_CLIENT_BEGIN)"
    unfolding negotiateHandshake_def by blast
  define v where "v = last (CP_VERSION_6 # map offer_version offers)"
  have v: "hsVersion st1 = Some v" "v \<in> {2, 3, 4, 5, 6}"
    using n(3) negotiated_version [OF n(2)] by (simp_all add: v_def)
  from sendHandshakeInfo_opcodes [OF assms(2) v] obtain before where
    s: "set before \<subseteq> {Inr HSV2_DB, Inr HSV2_SSL_NEGOTIATE, Inr HSV2_SSL_CONNECT}"
      "map frame_opcode (frames_of (sent_by st1 st2)) = before @ map Inr (metadata_opcodes v pgOptions)"
    by blast
  from s(1) have "Inr HSV2_CLIENT_DONE \<notin> set before" "Inr HSV2_CLIENT_BEGIN \<notin> set before"
    by auto
  then have c: "count_list before (Inr HSV2_CLIENT_DONE) = 0" "count_list before (Inr HSV2_CLIENT_BEGIN) = 0"
    by simp_all
  have "count_list (map frame_opcode (frames_of (sent_by st1 st2))) (Inr HSV2_CLIENT_DONE) = 1"
    "last (map frame_opcode (frames_of (sent_by st1 st2))) = Inr HSV2_CLIENT_DONE"
    "count_list (map frame_opcode (frames_of (sent_by st1 st2))) (Inr HSV2_CLIENT_BEGIN) = 0"
    unfolding s(2)
    using c by (simp_all add: count_list_map_Inr metadata_opcodes_CLIENT_DONE last_map)
  with n(1,4) show ?thesis
    by blast
qed

definition two_offers :: "string list" where
  "two_offers = [''M2'', ''N'', ''NN'', ''NNNN'']"

theorem client_begin_per_offer_client_done_once_witness:
  "fst (negotiateHandshake (new_driver two_offers)) = Inr True
   \<and> fst (sendHandshakeInfo ''db'' 0 ''u'' [] (snd (negotiateHandshake (new_driver two_offers))))
       = Inr True
   \<and> count_list (map frame_opcode (frames_of (sent_by (snd (negotiateHandshake (new_driver two_offers)))
        (snd (sendHandshakeInfo ''db'' 0 ''u'' [] (snd (negotiateHandshake (new_driver two_offers))))))))
        (Inr HSV2_CLIENT_DONE) = 1"
proof -
  have h1: "fst (negotiateHandshake (new_driver two_offers)) = Inr True"
    by code_simp
  have h2: "fst (sendHandshakeInfo ''db'' 0 ''u'' [] (snd (negotiateHandshake (new_driver two_offers))))
       = Inr True"
    by code_simp
  from h1 have 1: "negotiateHandshake (new_driver two_offers)
      = (Inr True, snd (negotiateHandshake (new_driver two_offers)))"
    by (metis prod.collapse)
  from h2 have 2: "sendHandshakeInfo ''db'' 0 ''u'' [] (snd (negotiateHandshake (new_driver two_offers)))
      = (Inr True, snd (sendHandshakeInfo ''db'' 0 ''u'' [] (snd (negotiateHandshake (new_driver two_offers)))))"
    by (metis prod.collapse)
  from client_begin_per_offer_client_done_once [OF 1 2] h1 h2 show ?thesis
    by blast
qed

text \<open>
  The claim as the specification states it fails: a counter-offer makes the driver send a
  second CLIENT_BEGIN in the same attempt.
\<close>

theorem client_begin_twice_counterexample:
  "fst (negotiateHandshake (new_driver [''M2'', ''N''])) = Inr True
   \<and> map frame_opcode (frames_of (written (snd (negotiateHandshake (new_driver [''M2'', ''N''])))))
       = [Inr HSV2_CLIENT_BEGIN, Inr HSV2_CLIENT_BEGIN]"
  by code_simp

section \<open>The completion drain\<close>

lemma drainMessage_notice:
  assumes "rx st = CHR ''N'' # len @ rest" "length len = 4"
  obtains st' where "drainMessage st = (Inr (Continue ()), st')" "rx st' = rest"
    "written st' = written st"
proof -
  from assms obtain st1 where
    r1: "readBytes 1 st = (Inr ''N'', st1)" "rx st1 = len @ rest" "written st1 = written st"
    using readBytes_next [of st "''N''" "len @ rest" 1] by auto
  with assms obtain st2 where
    r2: "readBytes 4 st1 = (Inr len, st2)" "rx st2 = rest" "written st2 = written st1"
    using readBytes_next [of st1 len rest 4] by auto
  have "drainMessage st = (Inr (Continue ()), st2)"
    using r1 r2
    by (simp add: drainMessage_def andThen_step)
  with r1 r2 that show ?thesis
    by simp
qed

lemma drainMessage_filler:
  assumes "drainMessage st = (r, st')" "rx st = t # rest"
    and "t \<noteq> AUTHENTICATION_REQUEST" "t \<noteq> NOTICE_RESPONSE" "t \<noteq> ERROR_RESPONSE"
  shows "if length rest < 8
         then r = Inl (if stream_end st then TransportClosed else Timeout) \<and> rx st' = rest
         else suffix (rx st') (drop 8 rest)
              \<and> (t = READY_FOR_QUERY \<longrightarrow> r = Inr (Return True) \<and> rx st' = drop 8 rest)
              \<and> (t \<noteq> READY_FOR_QUERY \<longrightarrow> t \<noteq> BACKEND_KEY_DATA
                    \<longrightarrow> r = Inr (Continue ()) \<and> rx st' = drop 8 rest)"
proof -
  from assms(2) obtain st1 where
    r1: "readBytes 1 st = (Inr [t], st1)" "rx st1 = rest"
    using readBytes_next [of st "[t]" rest 1] by auto
  from readBytes_fields [OF r1(1)] have se: "stream_end st1 = stream_end st"
    by auto
  obtain r2 st2 where r2: "readBytes 8 st1 = (r2, st2)"
    by (cases "readBytes 8 st1")
  note x = readBytes_rx [OF r2]
  show ?thesis
  proof (cases "length rest < 8")
    case True
    with x r1(2) se have z: "r2 = Inl (if stream_end st then TransportClosed else Timeout)"
      "rx st2 = rest"
      by (simp_all split: if_splits)
    from z assms(1,3-5) r1 r2
    have "r = Inl (if stream_end st then TransportClosed else Timeout)" "st' = st2"
      by (auto simp: drainMessage_def andThen_step andThen_fail)
    with z show ?thesis
      using True by simp
  next
    case False
    with x r1(2) have y: "r2 = Inr (take 8 rest)" "rx st2 = drop 8 rest"
      by (simp_all split: if_splits)
    have k: "(andThen (readBytes 4) (\<lambda>pidBytes.
              andThen (lift (unpackInt pidBytes)) (\<lambda>backendPid.
              andThen (readBytes 4) (\<lambda>keyBytes.
              andThen (lift (unpackInt keyBytes)) (\<lambda>key.
              ret (Continue ())))))) st2 = (r, st') \<Longrightarrow> suffix (rx st') (rx st2)"
    proof -
      assume a: "(andThen (readBytes 4) (\<lambda>pidBytes.
              andThen (lift (unpackInt pidBytes)) (\<lambda>backendPid.
              andThen (readBytes 4) (\<lambda>keyBytes.
              andThen (lift (unpackInt keyBytes)) (\<lambda>key.
              ret (Continue ())))))) st2 = (r, st')"
      have "always consumes (andThen (readBytes 4) (\<lambda>pidBytes.
              andThen (lift (unpackInt pidBytes)) (\<lambda>backendPid.
              andThen (readBytes 4) (\<lambda>keyBytes.
              andThen (lift (unpackInt keyBytes)) (\<lambda>key.
              ret (Continue ()))))))"
        by (intro always_intros io_rel_stepwise [OF io_rel_consumes]
            io_rel_readBytes [OF io_rel_consumes])
      from alwaysD [OF this a] show ?thesis
        by (simp add: consumes_def)
    qed
    from assms(1,3-5) r1 r2 y
    have "(if t = BACKEND_KEY_DATA
           then andThen (readBytes 4) (\<lambda>pidBytes.
              andThen (lift (unpackInt pidBytes)) (\<lambda>backendPid.
              andThen (readBytes 4) (\<lambda>keyBytes.
              andThen (lift (unpackInt keyBytes)) (\<lambda>key.
              ret (Continue ())))))
           else if t = READY_FOR_QUERY then ret (Return True)
           else ret (Continue ())) st2 = (r, st')"
      by (simp add: drainMessage_def andThen_step split: if_splits)
    with k y(2) False show ?thesis
      by (auto simp: if_io_eq)
  qed
qed

text \<open>
  Claim C9, as the code has it. A notice ('N') is followed by a 4-byte length only: the driver
  reads these four bytes, keeps nothing of them and goes on with the next message; it does
  not discard eight filler bytes first. For a type byte other than 'R', 'N' and 'E' the eight
  filler bytes are read before anything else is done with the message: when fewer than
  eight follow, the read fails and nothing more happens; otherwise 'Z' returns and an
  unknown type goes on right after them, and 'K' goes on to read its two integers.
\<close>

theorem notice_without_filler:
  "(rx st = CHR ''N'' # len @ rest \<and> length len = 4 \<longrightarrow>
      (\<exists>st'. drainMessage st = (Inr (Continue ()), st') \<and> rx st' = rest
         \<and> written st' = written st))
   \<and> (rx st = t # rest \<and> t \<notin> {AUTHENTICATION_REQUEST, NOTICE_RESPONSE, ERROR_RESPONSE} \<longrightarrow>
        (if length rest < 8
         then fst (drainMessage st) = Inl (if stream_end st then TransportClosed else Timeout)
              \<and> rx (snd (drainMessage st)) = rest
         else suffix (rx (snd (drainMessage st))) (drop 8 rest)
              \<and> (t = READY_FOR_QUERY \<longrightarrow> fst (drainMessage st) = Inr (Return True)
                    \<and> rx (snd (drainMessage st)) = drop 8 rest)
              \<and> (t \<noteq> READY_FOR_QUERY \<longrightarrow> t \<noteq> BACKEND_KEY_DATA
                    \<longrightarrow> fst (drainMessage st) = Inr (Continue ())
                        \<and> rx (snd (drainMessage st)) = drop 8 rest)))"
proof (rule conjI; intro impI; elim conjE)
  assume "rx st = CHR ''N'' # len @ rest" "length len = 4"
  then show "\<exists>st'. drainMessage st = (Inr (Continue ()), st') \<and> rx st' = rest
      \<and> written st' = written st"
    using drainMessage_notice [of st len rest] by blast
next
  assume a: "rx st = t # rest"
    "t \<notin> {AUTHENTICATION_REQUEST, NOTICE_RESPONSE, ERROR_RESPONSE}"
  obtain r st' where d: "drainMessage st = (r, st')"
    by (cases "drainMessage st")
  from drainMessage_filler [OF d a(1)] a(2) d
  show "if length rest < 8
         then fst (drainMessage st) = Inl (if stream_end st then TransportClosed else Timeout)
              \<and> rx (snd (drainMessage st)) = rest
         else suffix (rx (snd (drainMessage st))) (drop 8 rest)
              \<and> (t = READY_FOR_QUERY \<longrightarrow> fst (drainMessage st) = Inr (Return True)
                    \<and> rx (snd (drainMessage st)) = drop 8 rest)
              \<and> (t \<noteq> READY_FOR_QUERY \<longrightarrow> t \<noteq> BACKEND_KEY_DATA
                    \<longrightarrow> fst (drainMessage st) = Inr (Continue ())
                        \<and> rx (snd (drainMessage st)) = drop 8 rest)"
    by simp
qed

theorem notice_without_filler_witness:
  "rx (new_driver [''Nabcd'', ''Z12345678'']) = CHR ''N'' # ''abcd'' @ ''Z12345678''
   \<and> length ''abcd'' = 4
   \<and> (\<exists>st'. drainMessage (new_driver [''Nabcd'', ''Z12345678'']) = (Inr (Continue ()), st')
         \<and> rx st' = ''Z12345678'')
   \<and> rx (new_driver [''Z12345678'', ''more'']) = CHR ''Z'' # ''12345678more''
   \<and> CHR ''Z'' \<notin> {AUTHENTICATION_REQUEST, NOTICE_RESPONSE, ERROR_RESPONSE}
   \<and> fst (drainMessage (new_driver [''Z12345678'', ''more''])) = Inr (Return True)
   \<and> rx (snd (drainMessage (new_driver [''Z12345678'', ''more'']))) = ''more''"
proof -
  have h1: "rx (new_driver [''Nabcd'', ''Z12345678'']) = CHR ''N'' # ''abcd'' @ ''Z12345678''"
    "length ''abcd'' = 4"
    by (simp_all add: rx_def new_driver_def)
  have h2: "rx (new_driver [''Z12345678'', ''more'']) = CHR ''Z'' # ''12345678more''"
    "CHR ''Z'' \<notin> {AUTHENTICATION_REQUEST, NOTICE_RESPONSE, ERROR_RESPONSE}"
    by (simp_all add: rx_def new_driver_def)
  from notice_without_filler [of "new_driver [''Nabcd'', ''Z12345678'']" "''abcd''" "''Z12345678''"] h1
  have 1: "\<exists>st'. drainMessage (new_driver [''Nabcd'', ''Z12345678'']) = (Inr (Continue ()), st')
         \<and> rx st' = ''Z12345678''"
    by blast
  from notice_without_filler [of "new_driver [''Z12345678'', ''more'']" _ "''12345678more''" "CHR ''Z''"] h2
  have 2: "fst (drainMessage (new_driver [''Z12345678'', ''more''])) = Inr (Return True)
   \<and> rx (snd (drainMessage (new_driver [''Z12345678'', ''more'']))) = ''more''"
    by simp
  from h1 h2 1 2 show ?thesis
    by blast
qed

text \<open>
  The claim as the specification states it fails: after 'N' the driver consumes four bytes,
  not twelve, so that a 'Z' that follows them at once is seen and ends the drain.
\<close>

theorem notice_filler_counterexample:
  "rx (snd (drainMessage (new_driver [''Nabcd'', ''Z12345678'']))) = ''Z12345678''
   \<and> fst (waitConnectionComplete (new_driver [''Nabcd'', ''Z12345678''])) = Inr True
   \<and> rx (snd (waitConnectionComplete (new_driver [''Nabcd'', ''Z12345678'']))) = []"
  by code_simp

section \<open>What is handed back to the caller\<close>

lemma drainMessage_Return:
  assumes "drainMessage st = (Inr (Return result), st')"
  shows "result = True \<and> written st' = written st
         \<and> (\<exists>filler. length filler = 8 \<and> rx st = READY_FOR_QUERY # filler @ rx st')"
  using assms unfolding drainMessage_def Let_def
  apply (elim andThen_InrE)
  apply (drule readBytes_InrD)
  apply (simp split: if_splits)
  apply (auto elim!: andThen_InrE dest!: readBytes_InrD simp: length_Suc_conv)
  done

lemma drainMessage_Continue:
  assumes "drainMessage st = (Inr (Continue u), st')"
  shows "written st' = written st \<and> (\<exists>drained. rx st = drained @ rx st')"
  using assms unfolding drainMessage_def Let_def
  apply (elim andThen_InrE)
  apply (drule readBytes_InrD)
  apply (simp split: if_splits)
  apply (auto elim!: andThen_InrE dest!: readBytes_InrD)
  done

lemma waitConnectionComplete_Inr:
  assumes "waitConnectionComplete st = (Inr result, st')"
  shows "result = True \<and> written st' = written st
         \<and> (\<exists>drained filler. length filler = 8
               \<and> rx st = drained @ READY_FOR_QUERY # filler @ rx st')"
  using assms
proof (induction st rule: waitConnectionComplete.induct)
  case (1 st)
  from "1.prems" obtain outcome st1 where
    d: "drainMessage st = (Inr outcome, st1)" and
    rest: "(case outcome of Return r \<Rightarrow> ret r st1
            | Continue u \<Rightarrow> waitConnectionComplete st1) = (Inr result, st')"
    by (subst (asm) waitConnectionComplete.simps) (erule andThen_InrE)
  show ?case
  proof (cases outcome)
    case (Return r)
    with rest have e: "st' = st1" "r = result"
      by simp_all
    from drainMessage_Return [of st result st'] d Return e
    obtain filler where "result = True" "written st' = written st" "length filler = 8"
      "rx st = [] @ READY_FOR_QUERY # filler @ rx st'"
      by auto
    then show ?thesis
      by blast
  next
    case (Continue u)
    with rest have "waitConnectionComplete st1 = (Inr result, st')"
      by simp
    from "1.IH" [OF d Continue this] obtain drained filler where
      ih: "result = True" "written st' = written st1" "length filler = 8"
        "rx st1 = drained @ READY_FOR_QUERY # filler @ rx st'"
      by blast
    from drainMessage_Continue [of st u st1] d Continue obtain first where
      c: "written st1 = written st" "rx st = first @ rx st1"
      by auto
    from ih c have "result = True" "written st' = written st" "length filler = 8"
      "rx st = (first @ drained) @ READY_FOR_QUERY # filler @ rx st'"
      by simp_all
    then show ?thesis
      by blast
  qed
qed

lemma io_rel2_consumes: "io_rel 2 consumes"
  using io_rel_consumes by (rule io_rel_mono) simp

lemma consumes_phases:
  "negotiateHandshake st = (r1, st1) \<Longrightarrow> consumes st st1"
  "sendHandshakeInfo database securityLevel user pgOptions st = (r2, st2) \<Longrightarrow> consumes st st2"
  "authenticate md5 sha256 password st = (r3, st3) \<Longrightarrow> consumes st st3"
proof -
  have "always consumes negotiateHandshake"
    by (rule always_negotiateHandshake [OF io_rel2_consumes]) (simp add: consumes_def)
  then show "negotiateHandshake st = (r1, st1) \<Longrightarrow> consumes st st1"
    by (rule alwaysD)
  have "always consumes setNextDataProtocol"
    by (simp add: always_def setNextDataProtocol_def consumes_def)
  then have "always consumes (sendHandshakeInfo database securityLevel user pgOptions)"
    by (rule always_sendHandshakeInfo [OF io_rel2_consumes])
  then show "sendHandshakeInfo database securityLevel user pgOptions st = (r2, st2)
      \<Longrightarrow> consumes st st2"
    by (rule alwaysD)
  show "authenticate md5 sha256 password st = (r3, st3) \<Longrightarrow> consumes st st3"
    by (rule alwaysD [OF always_authenticate [OF io_rel_consumes]])
qed

text \<open>
  Claim C8, as the code has it. On a successful return of \<open>startup\<close> the buffer of the driver
  is empty and what it held when the drain returned is \<open>remainingBuffer\<close>. The server's bytes are: those the
  handshake consumed, ending with the 'Z' marker and the eight filler bytes read after it,
  then \<open>remainingBuffer\<close>, then the chunks the stream has still to deliver. So what the caller's
  parser receives, \<open>remainingBuffer\<close> first, is the tail of the stream after 'Z' and its
  eight filler bytes.
\<close>

theorem remaining_buffer_after_marker_and_filler:
  assumes "startup md5 sha256 database securityLevel user password pgOptions st = (Inr result, st')"
  shows "buffer st' = []
         \<and> (\<exists>drain ready. waitConnectionComplete drain = (Inr True, ready)
               \<and> remainingBuffer result = buffer ready \<and> st' = ready\<lparr>buffer := []\<rparr>)
         \<and> (\<exists>consumed filler. length filler = 8
               \<and> rx st = consumed @ READY_FOR_QUERY # filler
                         @ remainingBuffer result @ concat (incoming st'))"
proof -
  from assms obtain s1 s2 s3 s4 where
    n: "negotiateHandshake st = (Inr True, s1)" and
    i: "sendHandshakeInfo database securityLevel user pgOptions s1 = (Inr True, s2)" and
    a: "authenticate md5 sha256 password s2 = (Inr True, s3)" and
    w: "waitConnectionComplete s3 = (Inr True, s4)" and
    t: "takeRemaining s4 = (Inr result, st')"
    unfolding startup_Inr by blast
  from t have e: "st' = s4\<lparr>buffer := []\<rparr>" "remainingBuffer result = buffer s4"
    by (auto simp: takeRemaining_def andThen_Inr)
  from consumes_phases(1) [OF n] consumes_phases(2) [OF i] consumes_phases(3) [OF a]
  obtain before where b: "rx st = before @ rx s3"
    by (auto simp: consumes_def suffix_def)
  from waitConnectionComplete_Inr [OF w] obtain drained filler where
    d: "length filler = 8" "rx s3 = drained @ READY_FOR_QUERY # filler @ rx s4"
    by blast
  have "rx s4 = remainingBuffer result @ concat (incoming st')"
    using e by (simp add: rx_def)
  with b d have "length filler = 8"
    "rx st = (before @ drained) @ READY_FOR_QUERY # filler
             @ remainingBuffer result @ concat (incoming st')"
    by simp_all
  then have "\<exists>consumed filler. length filler = 8
               \<and> rx st = consumed @ READY_FOR_QUERY # filler
                         @ remainingBuffer result @ concat (incoming st')"
    by blast
  moreover from e have "buffer st' = []"
    by simp
  moreover from w e have "\<exists>drain ready. waitConnectionComplete drain = (Inr True, ready)
      \<and> remainingBuffer result = buffer ready \<and> st' = ready\<lparr>buffer := []\<rparr>"
    by blast
  ultimately show ?thesis
    by blast
qed

definition scenario6 :: "string list" where
  "scenario6 =
     [''N'', ''N'', ''N'', ''NNNNNNNNN'', CHR ''R'' # [CHR 0x00, CHR 0x00, CHR 0x00, CHR 0x00],
      CHR ''Z'' # ''S0123456789'', ''next'']"

theorem remaining_buffer_after_marker_and_filler_witness:
  "fst (startup no_digest no_digest ''mydb'' 0 ''u'' ''pw'' [] (new_driver scenario6))
     = Inr \<lparr>success = True, remainingBuffer = ''789'', needsInitialization = True\<rparr>
   \<and> buffer (snd (startup no_digest no_digest ''mydb'' 0 ''u'' ''pw'' [] (new_driver scenario6))) = []
   \<and> (\<exists>consumed filler. length filler = 8
         \<and> rx (new_driver scenario6) = consumed @ READY_FOR_QUERY # filler @ ''789''
             @ concat (incoming (snd (startup no_digest no_digest ''mydb'' 0 ''u'' ''pw'' []
                 (new_driver scenario6)))))"
proof -
  have h: "fst (startup no_digest no_digest ''mydb'' 0 ''u'' ''pw'' [] (new_driver scenario6))
     = Inr \<lparr>success = True, remainingBuffer = ''789'', needsInitialization = True\<rparr>"
    by code_simp
  then have "startup no_digest no_digest ''mydb'' 0 ''u'' ''pw'' [] (new_driver scenario6)
     = (Inr \<lparr>success = True, remainingBuffer = ''789'', needsInitialization = True\<rparr>,
        snd (startup no_digest no_digest ''mydb'' 0 ''u'' ''pw'' [] (new_driver scenario6)))"
    by (metis prod.collapse)
  from remaining_buffer_after_marker_and_filler [OF this] h show ?thesis
    by simp
qed

text \<open>
  The claim as the specification states it fails: when a message follows the 'Z' marker at
  once, its first eight bytes are read as filler and are not in \<open>remainingBuffer\<close>.
\<close>

theorem remaining_buffer_counterexample:
  "fst (startup no_digest no_digest ''mydb'' 0 ''u'' ''pw'' [] (new_driver scenario6))
     = Inr \<lparr>success = True, remainingBuffer = ''789'', needsInitialization = True\<rparr>
   \<and> incoming (snd (startup no_digest no_digest ''mydb'' 0 ''u'' ''pw'' [] (new_driver scenario6)))
       = [''next'']
   \<and> ''789'' @ ''next'' \<noteq> ''S0123456789'' @ ''next''"
  by code_simp

section \<open>An error response in the drain\<close>

lemma waitConnectionComplete_fail:
  "drainMessage st = (Inl e, st') \<Longrightarrow> waitConnectionComplete st = (Inl e, st')"
  by (subst waitConnectionComplete.simps) (simp add: andThen_fail)

text \<open>
  The decoder on well-formed sequences of two, three and four bytes, and on ill-formed input:
  a lone byte above 0x7F, a lead byte followed by a zero byte, an overlong form, an encoded
  surrogate, and sequences cut short.
\<close>

lemma toString_utf8_examples:
  "toString_utf8 [CHR 0xC3, CHR 0xA9] = [0xE9]"
  "toString_utf8 [CHR 0xE2, CHR 0x82, CHR 0xAC] = [0x20AC]"
  "toString_utf8 [CHR 0xF0, CHR 0x9F, CHR 0x98, CHR 0x80] = [0xD83D, 0xDE00]"
  "toString_utf8 [CHR 0xE9] = [0xFFFD]"
  "toString_utf8 [CHR 0xC3, CHR 0x00, CHR 0xA9] = [0xFFFD, 0, 0xFFFD]"
  "toString_utf8 [CHR 0xC0, CHR 0x80] = [0xFFFD, 0xFFFD]"
  "toString_utf8 [CHR 0xED, CHR 0xA0, CHR 0x80] = [0xFFFD, 0xFFFD, 0xFFFD]"
  "toString_utf8 [CHR 0xE2, CHR 0x82] = [0xFFFD]"
  "toString_utf8 [CHR 0xF0, CHR 0x9F, CHR 0x98, CHR ''a''] = [0xFFFD, 97]"
  by (simp_all add: toString_utf8_def utf16_units_def)





lemma waitConnectionComplete_short_error:
  assumes "rx st = CHR ''E'' # rest" "length rest < 2000"
  shows "\<exists>st'. waitConnectionComplete st
                 = (Inl (if stream_end st then TransportClosed else Timeout), st')
           \<and> rx st' = rest"
proof -
  from assms obtain st1 where
    r1: "readBytes 1 st = (Inr ''E'', st1)" "rx st1 = rest"
    using readBytes_next [of st "''E''" rest 1] by auto
  from readBytes_fields [OF r1(1)] have e: "stream_end st1 = stream_end st"
    by auto
  obtain r st2 where r2: "readBytes 2000 st1 = (r, st2)"
    by (cases "readBytes 2000 st1")
  from readBytes_rx [OF r2] r1(2) assms(2) e
  have "r = Inl (if stream_end st then TransportClosed else Timeout)" "rx st2 = rest"
    by auto
  with r2 have "drainMessage st = (Inl (if stream_end st then TransportClosed else Timeout), st2)"
    using r1(1) by (simp add: drainMessage_def andThen_step andThen_fail)
  from waitConnectionComplete_fail [OF this] \<open>rx st2 = rest\<close> show ?thesis
    by blast
qed

lemma error_text_alone_times_out:
  "fst (waitConnectionComplete
         (new_driver [CHR ''E'' # ''FATAL: database does not exist'' @ [CHR 0x00]]))
     = Inl Timeout"
  by code_simp









section \<open>The security level\<close>

text \<open>
  Claim C1 at its failing inputs. With security level 3 and the reply 'N', \<open>secureSession\<close>
  returns \<open>true\<close> on the cleartext stream and phase 2 goes on to send the metadata frames;
  with security level 1 and the reply 'S', it sends SSL_CONNECT, upgrades to TLS and returns
  \<open>true\<close>.
\<close>

theorem security_level_not_enforced:
  "fst (secureSession 3 (new_driver [''N''])) = Inr True
   \<and> secure (snd (secureSession 3 (new_driver [''N'']))) = False
   \<and> fst (sendHandshakeInfo [] 3 ''u'' []
            (snd (negotiateHandshake (new_driver [''N'', ''N'', ''NNNNNNNNN''])))) = Inr True
   \<and> map frame_opcode (frames_of (sent_by
          (snd (negotiateHandshake (new_driver [''N'', ''N'', ''NNNNNNNNN''])))
          (snd (sendHandshakeInfo [] 3 ''u'' []
                 (snd (negotiateHandshake (new_driver [''N'', ''N'', ''NNNNNNNNN''])))))))
       = map Inr [HSV2_SSL_NEGOTIATE, HSV2_USER, HSV2_APPNAME, HSV2_CLIENT_OS,
           HSV2_CLIENT_HOST_NAME, HSV2_CLIENT_OS_USER, HSV2_PROTOCOL, HSV2_REMOTE_PID,
           HSV2_CLIENT_TYPE, HSV2_64BIT_VARLENA_ENABLED, HSV2_CLIENT_DONE]
   \<and> fst (secureSession 1 (new_driver [''S''])) = Inr True
   \<and> secure (snd (secureSession 1 (new_driver [''S'']))) = True
   \<and> map frame_opcode (frames_of (written (snd (secureSession 1 (new_driver [''S''])))))
       = map Inr [HSV2_SSL_NEGOTIATE, HSV2_SSL_CONNECT]"
  by code_simp

section \<open>The salted credentials\<close>

lemma length_base64: "length (base64 xs) = 4 * ((length xs + 2) div 3)"
proof (induction xs rule: base64.induct)
  case (4 a b c rest)
  from "4.IH" [OF refl refl refl] have "length (base64 rest) = 4 * ((length rest + 2) div 3)" .
  moreover have "(length (a # b # c # rest) + 2) div 3 = Suc ((length rest + 2) div 3)"
    by simp
  ultimately show ?case
    by (simp add: Let_def)
qed (simp_all add: Let_def)

lemma stripPadding_length: "length (stripPadding s) \<le> length s"
proof -
  have "length (dropWhile (\<lambda>c. c = CHR ''='') (rev s)) \<le> length (rev s)"
    by (rule length_dropWhile_le)
  then show ?thesis
    by (simp add: stripPadding_def)
qed

lemma stripPadding_padding:
  "\<exists>k. s = stripPadding s @ replicate k (CHR ''='')"
proof -
  have "rev s = takeWhile (\<lambda>c. c = CHR ''='') (rev s) @ dropWhile (\<lambda>c. c = CHR ''='') (rev s)"
    by simp
  then have "s = rev (dropWhile (\<lambda>c. c = CHR ''='') (rev s))
                 @ rev (takeWhile (\<lambda>c. c = CHR ''='') (rev s))"
    by (metis rev_append rev_rev_ident)
  moreover have "takeWhile (\<lambda>c. c = CHR ''='') (rev s)
      = replicate (length (takeWhile (\<lambda>c. c = CHR ''='') (rev s))) (CHR ''='')"
    by (rule replicate_length_same [symmetric]) (auto dest: set_takeWhileD)
  ultimately have "s = stripPadding s
      @ replicate (length (takeWhile (\<lambda>c. c = CHR ''='') (rev s))) (CHR ''='')"
    unfolding stripPadding_def by (metis rev_replicate)
  then show ?thesis ..
qed

lemma stripPadding_last:
  "stripPadding s \<noteq> [] \<Longrightarrow> last (stripPadding s) \<noteq> CHR ''=''"
proof -
  assume a: "stripPadding s \<noteq> []"
  then have "dropWhile (\<lambda>c. c = CHR ''='') (rev s) \<noteq> []"
    by (simp add: stripPadding_def)
  from hd_dropWhile [OF this] a show ?thesis
    by (simp add: stripPadding_def last_rev)
qed

lemma packInt_in_range:
  "- 2147483648 \<le> v \<Longrightarrow> v \<le> 2147483647 \<Longrightarrow> \<exists>len. packInt v = Inr len"
  by (simp add: packInt_def writeInt32BE_def Let_def)

lemma authenticate_salted:
  assumes "authType = AUTH_REQ_MD5 \<and> digest = md5 \<or> authType = AUTH_REQ_SHA256 \<and> digest = sha256"
    and "packInt authType = Inr code"
    and "rx st = CHR ''R'' # code @ salt @ rest" "length salt = 2"
    and "length (digest (salt @ password)) \<le> 64"
  shows "\<exists>len st'.
           authenticate md5 sha256 password st = (Inr True, st') \<and> rx st' = rest
           \<and> packInt (int (length (stripPadding (base64 (digest (salt @ password))) @ NULL_BYTE)) + 4)
               = Inr len
           \<and> written st' = written st
               @ [len, stripPadding (base64 (digest (salt @ password))) @ NULL_BYTE]"
proof -
  define body where "body = stripPadding (base64 (digest (salt @ password))) @ NULL_BYTE"
  note c = packInt_unpackInt [OF assms(2)]
  from assms(3) obtain st1 where
    r1: "readBytes 1 st = (Inr ''R'', st1)" "rx st1 = code @ salt @ rest" "written st1 = written st"
    using readBytes_next [of st "''R''" "code @ salt @ rest" 1] by auto
  with c obtain st2 where
    r2: "readBytes 4 st1 = (Inr code, st2)" "rx st2 = salt @ rest" "written st2 = written st"
    using readBytes_next [of st1 code "salt @ rest" 4] by auto
  with assms(4) obtain st3 where
    r3: "readBytes 2 st2 = (Inr salt, st3)" "rx st3 = rest" "written st3 = written st"
    using readBytes_next [of st2 salt rest 2] by auto
  have "length (base64 (digest (salt @ password))) \<le> 88"
    unfolding length_base64 using assms(5) by simp
  with stripPadding_length [of "base64 (digest (salt @ password))"]
  have "length body \<le> 89"
    by (simp add: body_def)
  then obtain len where l: "packInt (int (length body) + 4) = Inr len"
    using packInt_in_range [of "int (length body) + 4"] by auto
  then have w: "writeFrame body st3 = (Inr (), st3\<lparr>written := written st3 @ [len, body]\<rparr>)"
    by (rule writeFrame_small)
  have "authenticate md5 sha256 password st = (Inr True, st3\<lparr>written := written st3 @ [len, body]\<rparr>)"
    using assms(1) c r1 r2 r3 w
    by (auto simp: authenticate_def andThen_step body_def Let_def)
  with r3 l show ?thesis
    unfolding body_def by auto
qed

text \<open>
  Claim C6. On the request 'R' with code 5 (MD5) or 6 (SHA-256) followed by a two-byte salt,
  the driver consumes the salt and writes one frame, the length and then the body with no
  opcode between them: the body is the base64 text of the digest of the salt followed by
  the password, without the \<open>=\<close> padding at its end, and a zero byte; the length field holds
  the number of bytes of the frame. The digest is at most 64 bytes long (16 for MD5, 32 for
  SHA-256), so that the length can be packed.
\<close>

theorem salted_digest_credential:
  assumes "authType = AUTH_REQ_MD5 \<and> digest = md5 \<or> authType = AUTH_REQ_SHA256 \<and> digest = sha256"
    and "packInt authType = Inr code"
    and "rx st = CHR ''R'' # code @ salt @ rest" "length salt = 2"
    and "length (digest (salt @ password)) \<le> 64"
  shows "\<exists>len st' credential k.
           authenticate md5 sha256 password st = (Inr True, st') \<and> rx st' = rest
           \<and> written st' = written st @ [len, credential @ NULL_BYTE]
           \<and> frame_length (len @ credential @ NULL_BYTE)
               = Inr (int (length (len @ credential @ NULL_BYTE)))
           \<and> credential = stripPadding (base64 (digest (salt @ password)))
           \<and> base64 (digest (salt @ password)) = credential @ replicate k (CHR ''='')
           \<and> (credential = [] \<or> last credential \<noteq> CHR ''='')"
proof -
  define credential where "credential = stripPadding (base64 (digest (salt @ password)))"
  from authenticate_salted [OF assms] obtain len st' where
    a: "authenticate md5 sha256 password st = (Inr True, st')" "rx st' = rest"
      "packInt (int (length (credential @ NULL_BYTE)) + 4) = Inr len"
      "written st' = written st @ [len, credential @ NULL_BYTE]"
    unfolding credential_def by blast
  from packInt_unpackInt [OF a(3)]
  have "frame_length (len @ credential @ NULL_BYTE)
      = Inr (int (length (len @ credential @ NULL_BYTE)))"
    by (simp add: frame_length_def unpackInt_def)
  moreover from stripPadding_padding [of "base64 (digest (salt @ password))"] obtain k where
    "base64 (digest (salt @ password)) = credential @ replicate k (CHR ''='')"
    unfolding credential_def by blast
  moreover have "credential = [] \<or> last credential \<noteq> CHR ''=''"
    unfolding credential_def using stripPadding_last by blast
  ultimately show ?thesis
    using a credential_def by blast
qed

definition md5_request :: "string list" where
  "md5_request = [CHR ''R'' # [CHR 0x00, CHR 0x00, CHR 0x00, CHR 0x05], [CHR 0xAB, CHR 0xCD]]"

theorem salted_digest_credential_witness:
  "packInt AUTH_REQ_MD5 = Inr [CHR 0x00, CHR 0x00, CHR 0x00, CHR 0x05]
   \<and> rx (new_driver md5_request)
       = CHR ''R'' # [CHR 0x00, CHR 0x00, CHR 0x00, CHR 0x05] @ [CHR 0xAB, CHR 0xCD] @ []
   \<and> length [CHR 0xAB, CHR 0xCD] = 2
   \<and> length (replicate 16 (CHR 0xFF)) \<le> 64
   \<and> (\<exists>len st'.
         authenticate (\<lambda>_. replicate 16 (CHR 0xFF)) (\<lambda>_. []) ''secret'' (new_driver md5_request)
           = (Inr True, st')
         \<and> written st' = [len, ''/////////////////////w'' @ NULL_BYTE])"
proof -
  have h: "AUTH_REQ_MD5 = AUTH_REQ_MD5 \<and> (\<lambda>_. replicate 16 (CHR 0xFF)) = (\<lambda>_. replicate 16 (CHR 0xFF))
      \<or> AUTH_REQ_MD5 = AUTH_REQ_SHA256 \<and> (\<lambda>_. replicate 16 (CHR 0xFF)) = (\<lambda>_. [])"
    "packInt AUTH_REQ_MD5 = Inr [CHR 0x00, CHR 0x00, CHR 0x00, CHR 0x05]"
    "rx (new_driver md5_request)
       = CHR ''R'' # [CHR 0x00, CHR 0x00, CHR 0x00, CHR 0x05] @ [CHR 0xAB, CHR 0xCD] @ []"
    "length [CHR 0xAB, CHR 0xCD] = 2"
    "length ((\<lambda>_. replicate 16 (CHR 0xFF)) ([CHR 0xAB, CHR 0xCD] @ ''secret'')) \<le> 64"
    by (simp_all add: rx_def new_driver_def md5_request_def)
  have e: "stripPadding (base64 (replicate 16 (CHR 0xFF))) = ''/////////////////////w''"
    by code_simp
  have w: "written (new_driver md5_request) = []"
    by (simp add: new_driver_def)
  from salted_digest_credential [where password = "''secret''", OF h] h(2-4) show ?thesis
    unfolding e w by auto
qed

end
